theory Spec2Isabelle
  imports Main "HOL-Library.Word"
begin

section \<open>Strings: the Go library functions the sender resolver calls\<close>

text \<open>
  Go strings are byte sequences; they are modelled as \<open>string\<close> (a list of \<open>char\<close>, one per
  byte, UTF-8). The functions of Go's \<open>strings\<close> and \<open>regexp\<close> packages that \<open>main.go\<close>
  calls are written out where they work on ASCII bytes. Where they go through Go's Unicode
  tables (\<open>unicode.ToLower\<close>, \<open>unicode.ToTitle\<close>, \<open>unicode.IsLetter\<close>, \<open>unicode.IsSpace\<close>),
  which are no part of this program, the result is a parameter of the model:
  \<^item> \<open>MapToLower s\<close> is \<open>strings.Map(unicode.ToLower, s)\<close>, which \<open>strings.ToLower\<close>
    returns for a string with a byte of 128 or above;
  \<^item> \<open>MapTitle s\<close> is what the \<open>strings.Map\<close> call of \<open>strings.Title\<close> returns for such
    a string;
  \<^item> \<open>TrimFuncIsSpace s\<close> and \<open>TrimRightFuncIsSpace s\<close> are
    \<open>strings.TrimFunc(s, unicode.IsSpace)\<close> and \<open>strings.TrimRightFunc(s, unicode.IsSpace)\<close>,
    to which \<open>strings.TrimSpace\<close> falls back when it meets such a byte.
\<close>

record UnicodeTables =
  MapToLower :: "string \<Rightarrow> string"
  MapTitle :: "string \<Rightarrow> string"
  TrimFuncIsSpace :: "string \<Rightarrow> string"
  TrimRightFuncIsSpace :: "string \<Rightarrow> string"

definition isASCIIChar :: "char \<Rightarrow> bool" where
  "isASCIIChar c = ((of_char c :: nat) < 128)"

definition isASCII :: "string \<Rightarrow> bool" where
  "isASCII s = list_all isASCIIChar s"

definition isUpperASCII :: "char \<Rightarrow> bool" where
  "isUpperASCII c = (65 \<le> (of_char c :: nat) \<and> (of_char c :: nat) \<le> 90)"

definition isLowerASCII :: "char \<Rightarrow> bool" where
  "isLowerASCII c = (97 \<le> (of_char c :: nat) \<and> (of_char c :: nat) \<le> 122)"

definition isDigitASCII :: "char \<Rightarrow> bool" where
  "isDigitASCII c = (48 \<le> (of_char c :: nat) \<and> (of_char c :: nat) \<le> 57)"

definition toLowerChar :: "char \<Rightarrow> char" where
  "toLowerChar c = (if isUpperASCII c then char_of ((of_char c :: nat) + 32) else c)"

definition toTitleChar :: "char \<Rightarrow> char" where
  "toTitleChar c = (if isLowerASCII c then char_of ((of_char c :: nat) - 32) else c)"

text \<open>\<open>strings.ToLower\<close>: a string of ASCII bytes is lower-cased byte by byte; any other
  string goes through \<open>strings.Map(unicode.ToLower, s)\<close>.\<close>

definition ToLower :: "UnicodeTables \<Rightarrow> string \<Rightarrow> string" where
  "ToLower u s = (if isASCII s then map toLowerChar s else MapToLower u s)"

text \<open>
  \<open>strings.Title\<close>: the closure remembers the previous character, starting from a space, and
  maps a character to title case when the previous one is a separator. Among the ASCII
  characters, letters, digits and the underscore are not separators and every other one is;
  \<open>unicode.ToTitle\<close> of an ASCII character is its upper case. \<open>TitleFrom\<close> is the closure
  run over ASCII bytes; a string with other bytes is decoded into runes and goes through the
  Unicode tables.
\<close>

definition isSeparator :: "char \<Rightarrow> bool" where
  "isSeparator c = (\<not> (isDigitASCII c \<or> isLowerASCII c \<or> isUpperASCII c \<or> c = CHR ''_''))"

fun TitleFrom :: "char \<Rightarrow> string \<Rightarrow> string" where
  "TitleFrom prev [] = []"
| "TitleFrom prev (r # s) =
     (if isSeparator prev then toTitleChar r # TitleFrom r s else r # TitleFrom r s)"

definition Title :: "UnicodeTables \<Rightarrow> string \<Rightarrow> string" where
  "Title u s = (if isASCII s then TitleFrom (CHR '' '') s else MapTitle u s)"

text \<open>
  \<open>strings.TrimSpace\<close>: it skips ASCII white space (tab, line feed, vertical tab, form feed,
  carriage return, space) from the left; if the byte that stops it is 128 or above it returns
  \<open>TrimFunc\<close> of the rest. Otherwise it skips ASCII white space from the right; if the byte
  that stops it there is 128 or above it returns \<open>TrimRightFunc\<close> of what is left, and else
  what is left.
\<close>

definition isSpaceASCII :: "char \<Rightarrow> bool" where
  "isSpaceASCII c = ((9 \<le> (of_char c :: nat) \<and> (of_char c :: nat) \<le> 13) \<or> c = CHR '' '')"

definition TrimSpace :: "UnicodeTables \<Rightarrow> string \<Rightarrow> string" where
  "TrimSpace u s =
     (let fromStart = dropWhile isSpaceASCII s in
      case fromStart of
        [] \<Rightarrow> []
      | c # _ \<Rightarrow>
          if \<not> isASCIIChar c then TrimFuncIsSpace u fromStart
          else (case dropWhile isSpaceASCII (rev fromStart) of
                  [] \<Rightarrow> []
                | c' # before \<Rightarrow>
                    if \<not> isASCIIChar c' then TrimRightFuncIsSpace u (rev (c' # before))
                    else rev (c' # before)))"

text \<open>\<open>strings.Split(s, "@")\<close>: the pieces between the occurrences of the separator; never
  an empty slice.\<close>

fun SplitAt :: "string \<Rightarrow> string list" where
  "SplitAt [] = [[]]"
| "SplitAt (c # s) =
     (if c = CHR ''@'' then [] # SplitAt s
      else (case SplitAt s of [] \<Rightarrow> [[c]] | p # ps \<Rightarrow> (c # p) # ps))"

text \<open>\<open>strings.Join(parts, " ")\<close>.\<close>

fun JoinSpace :: "string list \<Rightarrow> string" where
  "JoinSpace [] = []"
| "JoinSpace [p] = p"
| "JoinSpace (p # q # ps) = p @ CHR '' '' # JoinSpace (q # ps)"

text \<open>
  \<open>regexp.MustCompile(`[._-]+`).Split(s, -1)\<close>: the matches are the maximal runs of the
  three characters; the result holds the piece before each match and the piece after the last
  one, so a string that starts or ends with a match gives an empty first or last piece, and the
  empty string gives one empty piece.
\<close>

definition namePattern :: "char \<Rightarrow> bool" where
  "namePattern c = (c = CHR ''.'' \<or> c = CHR ''_'' \<or> c = CHR ''-'')"

function namePatternSplit :: "string \<Rightarrow> string list" where
  "namePatternSplit s =
     (case dropWhile (\<lambda>c. \<not> namePattern c) s of
        [] \<Rightarrow> [s]
      | m # rest \<Rightarrow> takeWhile (\<lambda>c. \<not> namePattern c) s # namePatternSplit (dropWhile namePattern rest))"
  by pat_completeness auto
termination
proof (relation "measure length")
  show "wf (measure length)" by simp
next
  fix s :: string and m rest
  assume h: "dropWhile (\<lambda>c. \<not> namePattern c) s = m # rest"
  have "length (dropWhile namePattern rest) \<le> length rest"
    by (rule length_dropWhile_le)
  moreover have "length (m # rest) \<le> length s"
    unfolding h [symmetric] by (rule length_dropWhile_le)
  ultimately show "(dropWhile namePattern rest, s) \<in> measure length"
    by simp
qed

section \<open>The sender identity resolver\<close>

record EmailSender =
  FullName :: string
  Email :: string

text \<open>\<open>extractNameFromEmail\<close>: the loop over \<open>nameParts\<close> keeps the non-empty parts, each
  passed through \<open>strings.Title(strings.ToLower(part))\<close>.\<close>

definition extractNameFromEmail :: "UnicodeTables \<Rightarrow> string \<Rightarrow> string" where
  "extractNameFromEmail u emailAddr =
     (case SplitAt emailAddr of
        [] \<Rightarrow> []
      | username # _ \<Rightarrow>
          JoinSpace (map (\<lambda>part. Title u (ToLower u part))
                         (filter (\<lambda>part. part \<noteq> []) (namePatternSplit username))))"


text \<open>
  \<open>mail.ParseAddress\<close> belongs to Go's \<open>net/mail\<close>, not to this program: it is a parameter of
  the model (field \<open>ParseAddress\<close> of the world below), \<open>None\<close> standing for a returned error.
\<close>

record MailAddress =
  Name :: string
  Address :: string

section \<open>Storage\<close>

type_synonym u32 = "32 word"

text \<open>The struct \<open>Progress\<close> without \<open>StartTime\<close>, which only feeds the time estimate
  that is printed.\<close>

record Progress =
  LastProcessedUID :: u32
  TotalMessages :: u32
  ProcessedCount :: u32

text \<open>The errors: a statement of the database that fails, a fetch that fails, and the four
  errors \<open>scanEmailsBatch\<close> returns.\<close>

datatype error =
    StorageError
  | FetchError
  | LoadProgressFailed
  | ConnectionFailed
  | LoginFailed
  | SelectFailed

text \<open>
  The SQLite database: the rows of table \<open>senders\<close> in insertion order (columns \<open>full_name\<close>
  and \<open>email\<close>), the row \<open>id = 1\<close> of table \<open>scan_progress\<close> when it exists, and a fault
  script. Every statement sent to the database takes the next entry of the script; \<open>True\<close>
  makes that statement return an error, and an exhausted script means no further faults.
  The log lines of the storage functions and the switch \<open>verbose\<close> are left out.
\<close>

record DB =
  senders :: "EmailSender list"
  scan_progress :: "Progress option"
  faults :: "bool list"

definition nextFault :: "DB \<Rightarrow> bool \<times> DB" where
  "nextFault d = (case faults d of [] \<Rightarrow> (False, d) | f # fs \<Rightarrow> (f, d\<lparr>faults := fs\<rparr>))"

text \<open>\<open>initDB\<close>: three \<open>CREATE ... IF NOT EXISTS\<close> statements, which keep what the file
  holds, and \<open>INSERT OR IGNORE INTO scan_progress (id) VALUES (1)\<close>, whose other columns
  default to 0.\<close>

definition newDatabase :: "bool list \<Rightarrow> DB" where
  "newDatabase fs = \<lparr>senders = [], scan_progress = None, faults = fs\<rparr>"

definition initDB :: "DB \<Rightarrow> error + DB" where
  "initDB d0 =
     (let (f1, d1) = nextFault d0 in
      if f1 then Inl StorageError else
      let (f2, d2) = nextFault d1 in
      if f2 then Inl StorageError else
      let (f3, d3) = nextFault d2 in
      if f3 then Inl StorageError else
      let (f4, d4) = nextFault d3 in
      if f4 then Inl StorageError else
      Inr (d4\<lparr>scan_progress :=
                 (case scan_progress d4 of
                    None \<Rightarrow> Some \<lparr>LastProcessedUID = 0, TotalMessages = 0, ProcessedCount = 0\<rparr>
                  | Some p \<Rightarrow> Some p)\<rparr>))"

text \<open>\<open>loadProgress\<close>: \<open>row.Scan\<close> returns an error when the query fails or finds no row.\<close>

definition loadProgress :: "DB \<Rightarrow> (error + Progress) \<times> DB" where
  "loadProgress d =
     (let (failed, d') = nextFault d in
      if failed then (Inl StorageError, d')
      else (case scan_progress d' of
              None \<Rightarrow> (Inl StorageError, d')
            | Some p \<Rightarrow> (Inr p, d')))"

text \<open>\<open>saveProgress\<close>: an \<open>UPDATE ... WHERE id = 1\<close>; without the row it changes nothing
  and is no error.\<close>

definition saveProgress :: "DB \<Rightarrow> Progress \<Rightarrow> error option \<times> DB" where
  "saveProgress d progress =
     (let (failed, d') = nextFault d in
      if failed then (Some StorageError, d')
      else (None, d'\<lparr>scan_progress :=
                        (case scan_progress d' of None \<Rightarrow> None | Some _ \<Rightarrow> Some progress)\<rparr>))"

text \<open>\<open>emailExists\<close>: \<open>err == nil && count > 0\<close>.\<close>

definition emailExists :: "DB \<Rightarrow> string \<Rightarrow> bool \<times> DB" where
  "emailExists d email =
     (let (failed, d') = nextFault d in
      (\<not> failed \<and> 0 < length (filter (\<lambda>row. Email row = email) (senders d')), d'))"

text \<open>\<open>INSERT OR IGNORE INTO senders (full_name, email)\<close> under the column constraint
  \<open>email TEXT UNIQUE\<close>: a row whose email is already in the table is dropped.\<close>

definition insertOrIgnore :: "EmailSender list \<Rightarrow> EmailSender \<Rightarrow> EmailSender list" where
  "insertOrIgnore rows sender =
     (if Email sender \<in> set (map Email rows) then rows else rows @ [sender])"

text \<open>The loop of \<open>saveSendersBatch\<close> over the prepared statement: a failed \<open>stmt.Exec\<close> is
  logged and the loop goes on.\<close>

fun execInserts :: "DB \<Rightarrow> EmailSender list \<Rightarrow> DB" where
  "execInserts d [] = d"
| "execInserts d (sender # rest) =
     (let (failed, d') = nextFault d in
      if failed then execInserts d' rest
      else execInserts (d'\<lparr>senders := insertOrIgnore (senders d') sender\<rparr>) rest)"

text \<open>\<open>saveSendersBatch\<close>: \<open>Begin\<close>, \<open>Prepare\<close>, the inserts, \<open>Commit\<close>. The deferred
  \<open>tx.Rollback()\<close> restores the table on every error return.\<close>

definition saveSendersBatch :: "DB \<Rightarrow> EmailSender list \<Rightarrow> error option \<times> DB" where
  "saveSendersBatch d0 sendersList =
     (if sendersList = [] then (None, d0) else
      let (beginFailed, d1) = nextFault d0 in
      if beginFailed then (Some StorageError, d1) else
      let (prepareFailed, d2) = nextFault d1 in
      if prepareFailed then (Some StorageError, d2) else
      let d3 = execInserts d2 sendersList;
          (commitFailed, d4) = nextFault d3 in
      if commitFailed then (Some StorageError, d4\<lparr>senders := senders d0\<rparr>)
      else (None, d4))"

section \<open>The mailbox session and the batch consumer\<close>

text \<open>
  A fetched message, as far as \<open>processBatch\<close> looks at it: no body section, a body that
  \<open>message.Read\<close> rejects, or an entity with the value of its \<open>From\<close> header (empty when the
  header is absent).
\<close>

datatype message = NoBody | Unreadable | Entity string

text \<open>
  What one run meets outside the program: whether dialling, login and \<open>Select\<close> fail, the
  mailbox size \<open>mbox.Messages\<close>, what \<open>c.Fetch\<close> delivers for a range (the messages sent on
  the channel and the error it returns at the end), the address parser, Go's Unicode tables,
  and the order in which Go ranges over \<open>senderMap\<close>, which the language leaves open.
\<close>

record World =
  DialTLSFails :: bool
  LoginFails :: bool
  SelectFails :: bool
  Messages :: u32
  Fetch :: "u32 \<Rightarrow> u32 \<Rightarrow> message list \<times> error option"
  ParseAddress :: "string \<Rightarrow> MailAddress option"
  Unicode :: UnicodeTables
  rangeOrder :: "EmailSender list \<Rightarrow> EmailSender list"

definition parseSender :: "World \<Rightarrow> string \<Rightarrow> EmailSender" where
  "parseSender w fromHeader =
     (case ParseAddress w fromHeader of
        None \<Rightarrow> \<lparr>FullName = [], Email = []\<rparr>
      | Some addr \<Rightarrow>
          (let email = ToLower (Unicode w) (Address addr);
               fullName = (if Name addr \<noteq> [] then TrimSpace (Unicode w) (Name addr)
                           else extractNameFromEmail (Unicode w) email)
           in \<lparr>FullName = fullName, Email = email\<rparr>))"

text \<open>The \<open>for msg := range messages\<close> loop of \<open>processBatch\<close>; \<open>senderMap\<close> is an
  association list in order of insertion.\<close>

fun consume :: "World \<Rightarrow> message list \<Rightarrow> (string \<times> EmailSender) list \<Rightarrow> (string \<times> EmailSender) list" where
  "consume w [] senderMap = senderMap"
| "consume w (NoBody # msgs) senderMap = consume w msgs senderMap"
| "consume w (Unreadable # msgs) senderMap = consume w msgs senderMap"
| "consume w (Entity fromHeader # msgs) senderMap =
     (if fromHeader = [] then consume w msgs senderMap
      else (let sender = parseSender w fromHeader in
            if Email sender = [] then consume w msgs senderMap
            else if map_of senderMap (Email sender) = None
                 then consume w msgs (senderMap @ [(Email sender, sender)])
                 else consume w msgs senderMap))"

definition processBatch :: "World \<Rightarrow> u32 \<Rightarrow> u32 \<Rightarrow> error + EmailSender list" where
  "processBatch w startUID endUID =
     (let (messages, done) = Fetch w startUID endUID;
          senderMap = consume w messages []
      in case done of
           Some e \<Rightarrow> Inl e
         | None \<Rightarrow> Inr (rangeOrder w (map snd senderMap)))"

section \<open>The scan\<close>

text \<open>Of \<open>Config\<close> the scan reads \<open>BatchSize\<close>; the other fields name the server and
  the files or switch printing on and off. \<open>parseFlags\<close> resets a size outside 100 to 2000
  to 500, but \<open>scanEmailsBatch\<close> takes the size as it is given.\<close>

record Config =
  BatchSize :: int

text \<open>The log lines of \<open>scanEmailsBatch\<close> that the properties below speak about: the batch
  that is being processed, the three errors inside the loop, and the three ways a run ends
  with success.\<close>

datatype event =
    ProcessingBatch u32 u32
  | BatchProcessingError
  | BatchSaveError
  | ProgressSaveError
  | NoMessagesFound
  | AllAlreadyProcessed
  | ScanningCompleted

text \<open>The state of a run: the database, the \<open>progress\<close> struct in memory, and the log lines
  of \<open>scanEmailsBatch\<close> that tell the batches and the errors.\<close>

record Run =
  db :: DB
  progress :: Progress
  events :: "event list"

text \<open>The filter loop \<open>if !emailExists(db, sender.Email)\<close>.\<close>

fun filterNew :: "DB \<Rightarrow> EmailSender list \<Rightarrow> EmailSender list \<times> DB" where
  "filterNew d [] = ([], d)"
| "filterNew d (sender # rest) =
     (let (found, d') = emailExists d (Email sender);
          (newSenders, d'') = filterNew d' rest
      in (if \<not> found then sender # newSenders else newSenders, d''))"

text \<open>One pass through the body of the batch loop, for \<open>currentUID\<close>; \<open>b\<close> is
  \<open>uint32(config.BatchSize)\<close> and \<open>n\<close> is \<open>mbox.Messages\<close>. The progress report and
  the pause of 100 ms at the end of the body change nothing that is modelled. On a fetch error
  the result of \<open>saveProgress\<close> is dropped, and the \<open>continue\<close> goes to the increment
  of the loop.\<close>

definition batchEnd :: "u32 \<Rightarrow> u32 \<Rightarrow> u32 \<Rightarrow> u32" where
  "batchEnd b n currentUID =
     (if currentUID + b - 1 > n then n else currentUID + b - 1)"

definition batchBody :: "World \<Rightarrow> u32 \<Rightarrow> u32 \<Rightarrow> u32 \<Rightarrow> Run \<Rightarrow> Run" where
  "batchBody w b n currentUID r =
     (let endUID = batchEnd b n currentUID;
          ev = events r @ [ProcessingBatch currentUID endUID]
      in case processBatch w currentUID endUID of
           Inl e \<Rightarrow>
             (let p = (progress r)\<lparr>LastProcessedUID := currentUID - 1\<rparr>;
                  (ignored, d1) = saveProgress (db r) p
              in \<lparr>db = d1, progress = p, events = ev @ [BatchProcessingError]\<rparr>)
         | Inr sendersList \<Rightarrow>
             (let (newSenders, d1) = filterNew (db r) sendersList;
                  (saveErr, d2) = (if newSenders \<noteq> [] then saveSendersBatch d1 newSenders
                                   else (None, d1));
                  ev1 = (if saveErr \<noteq> None then ev @ [BatchSaveError] else ev);
                  p = (progress r)\<lparr>LastProcessedUID := endUID, ProcessedCount := endUID\<rparr>;
                  (progressErr, d3) = saveProgress d2 p;
                  ev2 = (if progressErr \<noteq> None then ev1 @ [ProgressSaveError] else ev1)
              in \<lparr>db = d3, progress = p, events = ev2\<rparr>))"

text \<open>
  The loop \<open>for currentUID := startUID; currentUID <= mbox.Messages; currentUID += b\<close>.
  The addition wraps around at \<open>2 ^ 32\<close>, and the loop need not end (with \<open>b = 0\<close>, or a
  mailbox size within \<open>b\<close> of \<open>2 ^ 32\<close>): the model counts the passes it may still make
  and is \<open>None\<close> when they run out.
\<close>

fun batchLoop :: "nat \<Rightarrow> World \<Rightarrow> u32 \<Rightarrow> u32 \<Rightarrow> u32 \<Rightarrow> Run \<Rightarrow> Run option" where
  "batchLoop fuel w b n currentUID r =
     (if currentUID \<le> n
      then (case fuel of
              0 \<Rightarrow> None
            | Suc fuel' \<Rightarrow> batchLoop fuel' w b n (currentUID + b) (batchBody w b n currentUID r))
      else Some r)"

datatype result = Failed error DB | Returned Run

definition scanEmailsBatch :: "nat \<Rightarrow> Config \<Rightarrow> World \<Rightarrow> DB \<Rightarrow> result option" where
  "scanEmailsBatch fuel config w d0 =
     (case loadProgress d0 of
        (Inl e, d1) \<Rightarrow> Some (Failed LoadProgressFailed d1)
      | (Inr loaded, d1) \<Rightarrow>
          if DialTLSFails w then Some (Failed ConnectionFailed d1)
          else if LoginFails w then Some (Failed LoginFailed d1)
          else if SelectFails w then Some (Failed SelectFailed d1)
          else
            (let p = loaded\<lparr>TotalMessages := Messages w\<rparr>;
                 r = \<lparr>db = d1, progress = p, events = []\<rparr>
             in if Messages w = 0
                then Some (Returned (r\<lparr>events := [NoMessagesFound]\<rparr>))
                else
                  (let startUID = LastProcessedUID p + 1
                   in if startUID > Messages w
                      then Some (Returned (r\<lparr>events := [AllAlreadyProcessed]\<rparr>))
                      else (case batchLoop fuel w (word_of_int (BatchSize config))
                                           (Messages w) startUID r of
                              None \<Rightarrow> None
                            | Some r' \<Rightarrow>
                                Some (Returned (r'\<lparr>events := events r' @ [ScanningCompleted]\<rparr>))))))"

section \<open>Name derivation as the specification words it\<close>

text \<open>
  The derived display name in the specification's words: the local part is the substring
  before \<open>@\<close>; it is cut at runs of \<open>.\<close>, \<open>_\<close> and \<open>-\<close>; every non-empty fragment is put
  in title case; the fragments are joined with single spaces. \<open>fragments\<close> walks the local
  part once, \<open>cur\<close> being the fragment read so far.

  Title case of a fragment of ASCII characters: the first character of every word in upper
  case and every other letter in lower case, a word being a run of letters, digits and
  underscores; \<open>atStart\<close> tells whether the next character begins a word. For a fragment
  with other bytes, title case is what Go's Unicode tables make of the lower-cased fragment.
\<close>

definition localPart :: "string \<Rightarrow> string" where
  "localPart e = takeWhile (\<lambda>c. c \<noteq> CHR ''@'') e"

fun fragments :: "string \<Rightarrow> string \<Rightarrow> string list" where
  "fragments cur [] = (if cur = [] then [] else [cur])"
| "fragments cur (c # s) =
     (if namePattern c then (if cur = [] then fragments [] s else cur # fragments [] s)
      else fragments (cur @ [c]) s)"

definition isWordChar :: "char \<Rightarrow> bool" where
  "isWordChar c = (isDigitASCII c \<or> isLowerASCII c \<or> isUpperASCII c \<or> c = CHR ''_'')"

fun titleCaseFrom :: "bool \<Rightarrow> string \<Rightarrow> string" where
  "titleCaseFrom atStart [] = []"
| "titleCaseFrom atStart (c # s) =
     (if isWordChar c
      then (if atStart then toTitleChar c else toLowerChar c) # titleCaseFrom False s
      else c # titleCaseFrom True s)"

definition titleCase :: "UnicodeTables \<Rightarrow> string \<Rightarrow> string" where
  "titleCase u f = (if isASCII f then titleCaseFrom True f else Title u (ToLower u f))"

definition derivedNameSpec :: "UnicodeTables \<Rightarrow> string \<Rightarrow> string" where
  "derivedNameSpec u e = JoinSpace (map (titleCase u) (fragments [] (localPart e)))"

text \<open>The non-empty pieces of the regular-expression split.\<close>

definition pieces :: "string \<Rightarrow> string list" where
  "pieces s = filter (\<lambda>part. part \<noteq> []) (namePatternSplit s)"

section \<open>Sample data\<close>

text \<open>
  Unicode tables that know one letter beyond ASCII, the E with acute accent: in UTF-8 the
  capital is the bytes C3 89 and the small letter the bytes C3 A9. Every other character with
  a lead byte C3 is taken for a letter without case.
\<close>

fun sampleMapToLower :: "string \<Rightarrow> string" where
  "sampleMapToLower [] = []"
| "sampleMapToLower [c] = [toLowerChar c]"
| "sampleMapToLower (c1 # c2 # s) =
     (if c1 = CHR 0xC3 then c1 # (if c2 = CHR 0x89 then CHR 0xA9 else c2) # sampleMapToLower s
      else toLowerChar c1 # sampleMapToLower (c2 # s))"

fun sampleTitleFrom :: "bool \<Rightarrow> string \<Rightarrow> string" where
  "sampleTitleFrom atStart [] = []"
| "sampleTitleFrom atStart [c] = [if atStart then toTitleChar c else c]"
| "sampleTitleFrom atStart (c1 # c2 # s) =
     (if c1 = CHR 0xC3
      then c1 # (if atStart \<and> c2 = CHR 0xA9 then CHR 0x89 else c2) # sampleTitleFrom False s
      else (if atStart then toTitleChar c1 else c1) # sampleTitleFrom (isSeparator c1) (c2 # s))"

definition sampleUnicode :: UnicodeTables where
  "sampleUnicode =
     \<lparr>MapToLower = sampleMapToLower,
      MapTitle = sampleTitleFrom True,
      TrimFuncIsSpace = (\<lambda>s. rev (dropWhile isSpaceASCII (rev (dropWhile isSpaceASCII s)))),
      TrimRightFuncIsSpace = (\<lambda>s. rev (dropWhile isSpaceASCII (rev s)))\<rparr>"

definition EmileZola :: string where
  "EmileZola = CHR 0xC3 # CHR 0x89 # ''mile.Zola@x.com''"

definition emileZola :: string where
  "emileZola = CHR 0xC3 # CHR 0xA9 # ''mile.zola@x.com''"

text \<open>A parser that knows two bare addresses and two addresses with a display name, and a
  world around it whose mailbox answers every fetch with the same four messages.\<close>

definition sampleParser :: "string \<Rightarrow> MailAddress option" where
  "sampleParser h =
     (if h = ''John.Doe@X.com'' then Some \<lparr>Name = [], Address = ''John.Doe@X.com''\<rparr>
      else if h = ''JD <john.doe@x.com>'' then Some \<lparr>Name = ''JD'', Address = ''john.doe@x.com''\<rparr>
      else if h = EmileZola then Some \<lparr>Name = [], Address = EmileZola\<rparr>
      else if h = ''Zola <'' @ emileZola @ ''>'' then Some \<lparr>Name = ''Zola'', Address = emileZola\<rparr>
      else None)"

definition sampleWorld :: "u32 \<Rightarrow> World" where
  "sampleWorld n =
     \<lparr>DialTLSFails = False, LoginFails = False, SelectFails = False, Messages = n,
      Fetch = (\<lambda>s e. ([Entity ''Not An Address'', Entity ''John.Doe@X.com'', NoBody,
                        Entity ''JD <john.doe@x.com>''], None)),
      ParseAddress = sampleParser, Unicode = sampleUnicode, rangeOrder = rev\<rparr>"

text \<open>A mailbox of two messages from one sender: the first writes the address with a capital
  E with acute accent and gives no name, the second writes it in small letters and gives a
  name.\<close>

definition zolaWorld :: World where
  "zolaWorld =
     (sampleWorld 2)\<lparr>Fetch := (\<lambda>s e. ([Entity EmileZola,
                                           Entity (''Zola <'' @ emileZola @ ''>'')], None))\<rparr>"

definition freshDB :: DB where
  "freshDB =
     \<lparr>senders = [],
      scan_progress = Some \<lparr>LastProcessedUID = 0, TotalMessages = 0, ProcessedCount = 0\<rparr>,
      faults = []\<rparr>"

text \<open>The sample mailbox of 1247 messages during an outage: the fetch of the range 501 to
  1000 fails, every other fetch is answered as before.\<close>

definition outageWorld :: World where
  "outageWorld =
     (sampleWorld 1247)\<lparr>Fetch := (\<lambda>s e. if s = 501 \<and> e = 1000 then ([], Some FetchError)
                                        else Fetch (sampleWorld 1247) s e)\<rparr>"

text \<open>A mailbox of 1247 messages that answers each of the ranges 1 to 500, 501 to 1000 and
  1001 to 1247 with messages of its own, and any other range with none.\<close>

definition archiveWorld :: World where
  "archiveWorld =
     (sampleWorld 1247)\<lparr>Fetch := (\<lambda>s e.
        if s = 1 \<and> e = 500 then ([Entity ''John.Doe@X.com''], None)
        else if s = 501 \<and> e = 1000
             then ([Entity ''JD <john.doe@x.com>'', Unreadable, Entity EmileZola], None)
        else if s = 1001 \<and> e = 1247
             then ([NoBody, Entity (''Zola <'' @ emileZola @ ''>'')], None)
        else ([], None))\<rparr>"

text \<open>The fresh database with a fault script that lets six statements pass and fails the
  seventh; the same with a script that fails the ninth and the eleventh statement; a
  database whose checkpoint says ten of ten messages; the database a faultless scan of the
  sample mailbox of 1247 messages leaves.\<close>

definition failingSaveDB :: DB where
  "failingSaveDB = freshDB\<lparr>faults := [False, False, False, False, False, False, True]\<rparr>"

definition lateFailingDB :: DB where
  "lateFailingDB =
     freshDB\<lparr>faults := [False, False, False, False, False, False, False, False, True,
                         False, True]\<rparr>"

definition staleDB :: DB where
  "staleDB =
     \<lparr>senders = [],
      scan_progress = Some \<lparr>LastProcessedUID = 10, TotalMessages = 10, ProcessedCount = 10\<rparr>,
      faults = []\<rparr>"

definition doneDB :: DB where
  "doneDB =
     \<lparr>senders = [\<lparr>FullName = ''John Doe'', Email = ''john.doe@x.com''\<rparr>],
      scan_progress =
        Some \<lparr>LastProcessedUID = 1247, TotalMessages = 1247, ProcessedCount = 1247\<rparr>,
      faults = []\<rparr>"

section \<open>Notions the properties are stated with\<close>

text \<open>The uniqueness constraint on \<open>senders.email\<close>, as a property of the table.\<close>

definition uniqueEmails :: "DB \<Rightarrow> bool" where
  "uniqueEmails d = distinct (map Email (senders d))"

text \<open>The database a run leaves behind, and a sequence of runs, each on the database the
  previous one left.\<close>

definition resultDB :: "result \<Rightarrow> DB" where
  "resultDB res = (case res of Failed e d \<Rightarrow> d | Returned r \<Rightarrow> db r)"

fun scanRuns :: "nat \<Rightarrow> (Config \<times> World) list \<Rightarrow> DB \<Rightarrow> DB option" where
  "scanRuns fuel [] d = Some d"
| "scanRuns fuel ((config, w) # rest) d =
     (case scanEmailsBatch fuel config w d of
        None \<Rightarrow> None
      | Some res \<Rightarrow> scanRuns fuel rest (resultDB res))"

text \<open>The identity a message contributes to its batch, if it passes the four checks of the
  consumer loop, and the identities a stream contributes, in order of arrival.\<close>

fun resolve :: "World \<Rightarrow> message \<Rightarrow> EmailSender option" where
  "resolve w NoBody = None"
| "resolve w Unreadable = None"
| "resolve w (Entity fromHeader) =
     (if fromHeader = [] then None
      else (let sender = parseSender w fromHeader in
            if Email sender = [] then None else Some sender))"

definition observed :: "World \<Rightarrow> message list \<Rightarrow> EmailSender list" where
  "observed w msgs = List.map_filter (resolve w) msgs"

text \<open>The identities of a range as \<open>processBatch\<close> hands them on, read off the messages
  the mailbox delivers for the range; and the table after \<open>INSERT OR IGNORE\<close> of a list of
  identities, one after the other.\<close>

definition batchSenders :: "World \<Rightarrow> u32 \<Rightarrow> u32 \<Rightarrow> EmailSender list" where
  "batchSenders w startUID endUID =
     rangeOrder w (map snd (consume w (fst (Fetch w startUID endUID)) []))"

definition storeAll :: "EmailSender list \<Rightarrow> EmailSender list \<Rightarrow> EmailSender list" where
  "storeAll rows xs = foldl insertOrIgnore rows xs"

text \<open>The batches a loop with room for \<open>fuel\<close> passes goes through from \<open>currentUID\<close>, and
  the log lines that name a batch.\<close>

fun batchRanges :: "nat \<Rightarrow> u32 \<Rightarrow> u32 \<Rightarrow> u32 \<Rightarrow> (u32 \<times> u32) list" where
  "batchRanges 0 b n currentUID = []"
| "batchRanges (Suc fuel) b n currentUID =
     (if currentUID \<le> n
      then (currentUID, batchEnd b n currentUID) # batchRanges fuel b n (currentUID + b)
      else [])"

definition batchesOf :: "event list \<Rightarrow> (u32 \<times> u32) list" where
  "batchesOf evs = concat (map (\<lambda>ev. case ev of ProcessingBatch s e \<Rightarrow> [(s, e)] | _ \<Rightarrow> []) evs)"

text \<open>A well-formed \<open>senderMap\<close>: no key twice, every identity under its own address.\<close>

definition keyed :: "(string \<times> EmailSender) list \<Rightarrow> bool" where
  "keyed m = (distinct (map fst m) \<and> list_all (\<lambda>(k, s). k = Email s) m)"

section \<open>Properties of the name derivation\<close>

declare namePatternSplit.simps [simp del]

lemma SplitAt_head: "\<exists>ps. SplitAt e = takeWhile (\<lambda>c. c \<noteq> CHR ''@'') e # ps"
  by (induction e) auto

lemma namePatternSplit_Nil: "namePatternSplit [] = [[]]"
  by (simp add: namePatternSplit.simps)

lemma namePatternSplit_nonempty: "namePatternSplit s \<noteq> []"
  by (subst namePatternSplit.simps) (simp split: list.split)

lemma namePatternSplit_keep:
  "\<not> namePattern c \<Longrightarrow>
   namePatternSplit (c # s) = (c # hd (namePatternSplit s)) # tl (namePatternSplit s)"
proof (cases "dropWhile (\<lambda>c. \<not> namePattern c) s")
  case Nil
  show "\<not> namePattern c \<Longrightarrow> ?thesis"
    by (simp add: namePatternSplit.simps [of s] namePatternSplit.simps [of "c # s"] Nil)
next
  case (Cons m rest)
  show "\<not> namePattern c \<Longrightarrow> ?thesis"
    by (simp add: namePatternSplit.simps [of s] namePatternSplit.simps [of "c # s"] Cons)
qed

lemma namePatternSplit_match:
  "namePattern c \<Longrightarrow> namePatternSplit (c # s) = [] # namePatternSplit (dropWhile namePattern s)"
  by (subst namePatternSplit.simps) simp

lemma pieces_dropWhile: "pieces (dropWhile namePattern s) = pieces s"
proof (cases s)
  case Nil
  then show ?thesis by simp
next
  case (Cons c t)
  then show ?thesis
    by (simp add: pieces_def namePatternSplit_match)
qed

text \<open>The one-pass reading agrees with the split, whatever fragment is pending.\<close>

lemma fragments_pieces:
  "fragments cur s =
     filter (\<lambda>part. part \<noteq> []) ((cur @ hd (namePatternSplit s)) # tl (namePatternSplit s))"
proof (induction s arbitrary: cur)
  case Nil
  then show ?case by (simp add: namePatternSplit_Nil)
next
  case (Cons c s)
  show ?case
  proof (cases "namePattern c")
    case True
    have "fragments [] s = pieces s"
      using Cons.IH [of "[]"] namePatternSplit_nonempty [of s] by (simp add: pieces_def)
    then show ?thesis
      using True pieces_dropWhile [of s] by (simp add: namePatternSplit_match pieces_def)
  next
    case False
    then show ?thesis
      using Cons.IH [of "cur @ [c]"] by (simp add: namePatternSplit_keep)
  qed
qed

lemma toLowerChar_word: "isSeparator (toLowerChar c) = (\<not> isWordChar c)"
  by (auto simp: isSeparator_def isWordChar_def toLowerChar_def isUpperASCII_def
      isLowerASCII_def isDigitASCII_def)

lemma toTitle_toLower: "isWordChar c \<Longrightarrow> toTitleChar (toLowerChar c) = toTitleChar c"
  by (auto simp: isWordChar_def toLowerChar_def toTitleChar_def isUpperASCII_def
      isLowerASCII_def isDigitASCII_def)

lemma not_word_unchanged: "\<not> isWordChar c \<Longrightarrow> toLowerChar c = c \<and> toTitleChar c = c"
  by (auto simp: isWordChar_def toLowerChar_def toTitleChar_def)

lemma toLowerChar_ASCII: "isASCIIChar c \<Longrightarrow> isASCIIChar (toLowerChar c)"
  by (auto simp: isASCIIChar_def toLowerChar_def isUpperASCII_def)

lemma map_toLowerChar_ASCII: "isASCII s \<Longrightarrow> isASCII (map toLowerChar s)"
  by (induction s) (simp_all add: isASCII_def toLowerChar_ASCII)

text \<open>The two passes of the code, lower case and then the closure of \<open>Title\<close>, against the
  single pass of the specification's title case.\<close>

lemma TitleFrom_lower:
  "TitleFrom prev (map toLowerChar s) = titleCaseFrom (isSeparator prev) s"
proof (induction s arbitrary: prev)
  case Nil
  then show ?case by simp
next
  case (Cons c s)
  show ?case
  proof (cases "isWordChar c")
    case True
    then show ?thesis
      using Cons.IH [of "toLowerChar c"] by (simp add: toLowerChar_word toTitle_toLower)
  next
    case False
    then have "toLowerChar c = c" "toTitleChar c = c" "isSeparator c"
      using not_word_unchanged [of c] by (simp_all add: isSeparator_def isWordChar_def)
    then show ?thesis
      using False Cons.IH [of c] by simp
  qed
qed

lemma separator_space: "isSeparator (CHR '' '')"
  by (simp add: isSeparator_def isDigitASCII_def isLowerASCII_def isUpperASCII_def)

lemma Title_ToLower_ASCII: "isASCII f \<Longrightarrow> Title u (ToLower u f) = titleCaseFrom True f"
  by (simp add: Title_def ToLower_def map_toLowerChar_ASCII TitleFrom_lower separator_space)

lemma titleCase_code: "titleCase u f = Title u (ToLower u f)"
  by (simp add: titleCase_def Title_ToLower_ASCII)

lemma extract_refines: "extractNameFromEmail u e = derivedNameSpec u e"
proof -
  obtain ps where ps: "SplitAt e = localPart e # ps"
    using SplitAt_head [of e] by (auto simp: localPart_def)
  have "fragments [] (localPart e) = filter (\<lambda>part. part \<noteq> []) (namePatternSplit (localPart e))"
    using namePatternSplit_nonempty [of "localPart e"] by (simp add: fragments_pieces)
  then show ?thesis
    by (simp add: extractNameFromEmail_def derivedNameSpec_def ps titleCase_code [abs_def])
qed

lemma extract_john_doe: "extractNameFromEmail u ''john.doe@x.com'' = ''John Doe''"
  by code_simp

lemma extract_a: "extractNameFromEmail u ''a@x.com'' = ''A''"
  by code_simp

lemma extract_empty_local: "extractNameFromEmail u ''@x.com'' = []"
  by code_simp

lemma extract_john_doe_smith:
  "extractNameFromEmail u ''john.doe_smith@x.com'' = ''John Doe Smith''"
  by code_simp

text \<open>
  Claim C6. When the parsed header carries no display name, the resolver's name is the one the
  specification derives from the lower-cased address: local part before \<open>@\<close>, cut at runs of
  \<open>.\<close>, \<open>_\<close>, \<open>-\<close>, non-empty fragments in title case, joined by single spaces. For every
  address and whatever Go's Unicode tables hold, \<open>extractNameFromEmail\<close> computes that name.
  On a fragment of ASCII characters the code's \<open>strings.Title\<close> of \<open>strings.ToLower\<close> is the
  title case of the specification: first character of each word in upper case, every other
  letter in lower case. The examples of the specification evaluate to \<open>John Doe\<close>, \<open>A\<close>, the
  empty name and \<open>John Doe Smith\<close>.
\<close>

theorem name_derivation:
  "(ParseAddress w h = Some a \<and> Name a = [] \<longrightarrow>
      parseSender w h =
        \<lparr>FullName = derivedNameSpec (Unicode w) (ToLower (Unicode w) (Address a)),
         Email = ToLower (Unicode w) (Address a)\<rparr>)
   \<and> extractNameFromEmail u e = derivedNameSpec u e
   \<and> (isASCII f \<longrightarrow> Title u (ToLower u f) = titleCaseFrom True f)
   \<and> extractNameFromEmail u ''john.doe@x.com'' = ''John Doe''
   \<and> extractNameFromEmail u ''a@x.com'' = ''A''
   \<and> extractNameFromEmail u ''@x.com'' = []
   \<and> extractNameFromEmail u ''john.doe_smith@x.com'' = ''John Doe Smith''"
proof -
  have "ParseAddress w h = Some a \<and> Name a = [] \<longrightarrow>
      parseSender w h =
        \<lparr>FullName = derivedNameSpec (Unicode w) (ToLower (Unicode w) (Address a)),
         Email = ToLower (Unicode w) (Address a)\<rparr>"
    by (simp add: parseSender_def extract_refines Let_def)
  then show ?thesis
    using extract_refines [of u e] Title_ToLower_ASCII [of f u]
      extract_john_doe extract_a extract_empty_local extract_john_doe_smith
    by blast
qed

theorem name_derivation_witness:
  "ParseAddress zolaWorld EmileZola = Some \<lparr>Name = [], Address = EmileZola\<rparr>
   \<and> Name \<lparr>Name = [], Address = EmileZola\<rparr> = []
   \<and> parseSender zolaWorld EmileZola =
       \<lparr>FullName = CHR 0xC3 # CHR 0x89 # ''mile Zola'', Email = emileZola\<rparr>
   \<and> isASCII ''jOHN+doe''
   \<and> Title sampleUnicode (ToLower sampleUnicode ''jOHN+doe'') = ''John+Doe''"
proof -
  have parsed: "ParseAddress zolaWorld EmileZola = Some \<lparr>Name = [], Address = EmileZola\<rparr>"
    by code_simp
  have tables: "Unicode zolaWorld = sampleUnicode"
    by (simp add: zolaWorld_def sampleWorld_def)
  have lower: "ToLower sampleUnicode EmileZola = emileZola"
    by code_simp
  have derived: "derivedNameSpec sampleUnicode emileZola = CHR 0xC3 # CHR 0x89 # ''mile Zola''"
    by code_simp
  have ascii: "isASCII ''jOHN+doe''"
    by code_simp
  have cased: "titleCaseFrom True ''jOHN+doe'' = ''John+Doe''"
    by code_simp
  note inst = name_derivation [of zolaWorld EmileZola "\<lparr>Name = [], Address = EmileZola\<rparr>"
      sampleUnicode "[]" "''jOHN+doe''"]
  have "parseSender zolaWorld EmileZola =
      \<lparr>FullName = derivedNameSpec (Unicode zolaWorld) (ToLower (Unicode zolaWorld) EmileZola),
       Email = ToLower (Unicode zolaWorld) EmileZola\<rparr>"
    using inst parsed by simp
  then have resolved: "parseSender zolaWorld EmileZola =
       \<lparr>FullName = CHR 0xC3 # CHR 0x89 # ''mile Zola'', Email = emileZola\<rparr>"
    by (simp only: tables lower derived)
  have "Title sampleUnicode (ToLower sampleUnicode ''jOHN+doe'') = titleCaseFrom True ''jOHN+doe''"
    using inst ascii by blast
  then have title: "Title sampleUnicode (ToLower sampleUnicode ''jOHN+doe'') = ''John+Doe''"
    by (simp only: cased)
  show ?thesis
    using parsed resolved ascii title by simp
qed

section \<open>Storage: what each statement leaves untouched\<close>

lemma nextFault_senders [simp]: "senders (snd (nextFault d)) = senders d"
  by (simp add: nextFault_def split: list.split)

lemma nextFault_scan_progress [simp]: "scan_progress (snd (nextFault d)) = scan_progress d"
  by (simp add: nextFault_def split: list.split)

lemma nextFault_quiet: "faults d = [] \<Longrightarrow> nextFault d = (False, d)"
  by (simp add: nextFault_def)

lemma nextFault_cases:
  obtains f d' where "nextFault d = (f, d')" "senders d' = senders d"
    "scan_progress d' = scan_progress d"
proof -
  have "senders (snd (nextFault d)) = senders d" "scan_progress (snd (nextFault d)) = scan_progress d"
    by simp_all
  then show ?thesis using that [of "fst (nextFault d)" "snd (nextFault d)"] by simp
qed

lemma insertOrIgnore_distinct:
  "distinct (map Email rows) \<Longrightarrow> distinct (map Email (insertOrIgnore rows sender))"
  by (simp add: insertOrIgnore_def)

lemma execInserts_unique: "uniqueEmails d \<Longrightarrow> uniqueEmails (execInserts d xs)"
proof (induction xs arbitrary: d)
  case Nil
  then show ?case by simp
next
  case (Cons x xs)
  obtain f d' where n: "nextFault d = (f, d')" "senders d' = senders d"
    by (rule nextFault_cases)
  have u: "uniqueEmails d'" using Cons.prems n by (simp add: uniqueEmails_def)
  then have "uniqueEmails (d'\<lparr>senders := insertOrIgnore (senders d') x\<rparr>)"
    by (simp add: uniqueEmails_def insertOrIgnore_distinct)
  then show ?case using Cons.IH u n by simp
qed

lemma execInserts_scan_progress [simp]: "scan_progress (execInserts d xs) = scan_progress d"
proof (induction xs arbitrary: d)
  case Nil
  then show ?case by simp
next
  case (Cons x xs)
  obtain f d' where n: "nextFault d = (f, d')" "scan_progress d' = scan_progress d"
    by (rule nextFault_cases)
  then show ?case using Cons.IH by simp
qed

lemma execInserts_quiet: "faults d = [] \<Longrightarrow> faults (execInserts d xs) = []"
  by (induction xs arbitrary: d) (simp_all add: nextFault_quiet)

lemma saveSendersBatch_unique:
  "uniqueEmails d \<Longrightarrow> uniqueEmails (snd (saveSendersBatch d xs))"
proof -
  assume u: "uniqueEmails d"
  obtain f1 d1 where n1: "nextFault d = (f1, d1)" "senders d1 = senders d"
    by (rule nextFault_cases)
  obtain f2 d2 where n2: "nextFault d1 = (f2, d2)" "senders d2 = senders d1"
    by (rule nextFault_cases)
  obtain f3 d4 where n3: "nextFault (execInserts d2 xs) = (f3, d4)"
      "senders d4 = senders (execInserts d2 xs)"
    by (rule nextFault_cases)
  have "uniqueEmails d2" using u n1 n2 by (simp add: uniqueEmails_def)
  then have "uniqueEmails (execInserts d2 xs)" by (rule execInserts_unique)
  then have "uniqueEmails d4" using n3 by (simp add: uniqueEmails_def)
  then show ?thesis
    using u n1 n2 n3 by (simp add: saveSendersBatch_def uniqueEmails_def)
qed

lemma saveSendersBatch_scan_progress [simp]:
  "scan_progress (snd (saveSendersBatch d xs)) = scan_progress d"
proof -
  obtain f1 d1 where n1: "nextFault d = (f1, d1)" "scan_progress d1 = scan_progress d"
    by (rule nextFault_cases)
  obtain f2 d2 where n2: "nextFault d1 = (f2, d2)" "scan_progress d2 = scan_progress d1"
    by (rule nextFault_cases)
  obtain f3 d4 where n3: "nextFault (execInserts d2 xs) = (f3, d4)"
      "scan_progress d4 = scan_progress (execInserts d2 xs)"
    by (rule nextFault_cases)
  show ?thesis
    using n1 n2 n3 by (simp add: saveSendersBatch_def)
qed

lemma saveSendersBatch_quiet:
  "faults d = [] \<Longrightarrow> fst (saveSendersBatch d xs) = None \<and> faults (snd (saveSendersBatch d xs)) = []"
  by (simp add: saveSendersBatch_def nextFault_quiet execInserts_quiet)

lemma emailExists_senders [simp]: "senders (snd (emailExists d e)) = senders d"
  by (rule nextFault_cases [of d]) (simp add: emailExists_def)

lemma emailExists_scan_progress [simp]: "scan_progress (snd (emailExists d e)) = scan_progress d"
  by (rule nextFault_cases [of d]) (simp add: emailExists_def)

lemma emailExists_quiet: "faults d = [] \<Longrightarrow> faults (snd (emailExists d e)) = []"
  by (simp add: emailExists_def nextFault_quiet)

lemma filterNew_senders [simp]: "senders (snd (filterNew d xs)) = senders d"
proof (induction xs arbitrary: d)
  case Nil
  then show ?case by simp
next
  case (Cons x xs)
  have "senders (snd (filterNew (snd (emailExists d (Email x))) xs)) = senders d"
    by (simp add: Cons.IH)
  then show ?case by (simp add: split_beta)
qed

lemma filterNew_scan_progress [simp]: "scan_progress (snd (filterNew d xs)) = scan_progress d"
proof (induction xs arbitrary: d)
  case Nil
  then show ?case by simp
next
  case (Cons x xs)
  have "scan_progress (snd (filterNew (snd (emailExists d (Email x))) xs)) = scan_progress d"
    by (simp add: Cons.IH)
  then show ?case by (simp add: split_beta)
qed

lemma filterNew_quiet: "faults d = [] \<Longrightarrow> faults (snd (filterNew d xs)) = []"
proof (induction xs arbitrary: d)
  case Nil
  then show ?case by simp
next
  case (Cons x xs)
  then show ?case by (simp add: split_beta emailExists_quiet)
qed

lemma saveProgress_senders [simp]: "senders (snd (saveProgress d p)) = senders d"
  by (rule nextFault_cases [of d]) (simp add: saveProgress_def)

lemma saveProgress_quiet:
  "faults d = [] \<Longrightarrow>
   saveProgress d p =
     (None, d\<lparr>scan_progress := (case scan_progress d of None \<Rightarrow> None | Some _ \<Rightarrow> Some p)\<rparr>)"
  by (simp add: saveProgress_def nextFault_quiet)

lemma loadProgress_senders [simp]: "senders (snd (loadProgress d)) = senders d"
  by (rule nextFault_cases [of d]) (simp add: loadProgress_def split: option.split)

section \<open>The loop, unfolded one pass at a time\<close>

declare batchLoop.simps [simp del]

lemma batchLoop_exit: "\<not> c \<le> n \<Longrightarrow> batchLoop fuel w b n c r = Some r"
  by (simp add: batchLoop.simps)

lemma batchLoop_0: "c \<le> n \<Longrightarrow> batchLoop 0 w b n c r = None"
  by (simp add: batchLoop.simps)

lemma batchLoop_Suc:
  "c \<le> n \<Longrightarrow>
   batchLoop (Suc fuel) w b n c r = batchLoop fuel w b n (c + b) (batchBody w b n c r)"
  by (simp add: batchLoop.simps [of "Suc fuel"])

text \<open>The three ways a run ends: an error before the scan, no work, or the loop.\<close>

lemma scanEmailsBatch_cases:
  assumes "scanEmailsBatch fuel config w d = Some res"
  obtains (failed) e where "res = Failed e (snd (loadProgress d))"
  | (idle) p ev where "fst (loadProgress d) = Inr p"
      "res = Returned \<lparr>db = snd (loadProgress d), progress = p\<lparr>TotalMessages := Messages w\<rparr>,
                       events = [ev]\<rparr>"
      "Messages w = 0 \<or> LastProcessedUID p + 1 > Messages w"
  | (looped) p r' where "fst (loadProgress d) = Inr p"
      "Messages w \<noteq> 0" "LastProcessedUID p + 1 \<le> Messages w"
      "batchLoop fuel w (word_of_int (BatchSize config)) (Messages w) (LastProcessedUID p + 1)
         \<lparr>db = snd (loadProgress d), progress = p\<lparr>TotalMessages := Messages w\<rparr>, events = []\<rparr>
       = Some r'"
      "res = Returned (r'\<lparr>events := events r' @ [ScanningCompleted]\<rparr>)"
proof -
  obtain l d1 where l: "loadProgress d = (l, d1)" by (cases "loadProgress d")
  show ?thesis
  proof (cases l)
    case (Inl e)
    then show ?thesis
      using assms l failed [of LoadProgressFailed] by (auto simp: scanEmailsBatch_def)
  next
    case (Inr p)
    show ?thesis
    proof (cases "DialTLSFails w \<or> LoginFails w \<or> SelectFails w")
      case True
      then show ?thesis
        using assms l Inr failed by (auto simp: scanEmailsBatch_def split: if_splits)
    next
      case ok: False
      show ?thesis
      proof (cases "Messages w = 0 \<or> LastProcessedUID p + 1 > Messages w")
        case True
        then show ?thesis
          using assms l Inr ok idle [of p]
          by (auto simp: scanEmailsBatch_def Let_def split: if_splits)
      next
        case False
        then show ?thesis
          using assms l Inr ok looped [of p]
          by (auto simp: scanEmailsBatch_def Let_def not_less split: option.splits if_splits)
      qed
    qed
  qed
qed

section \<open>Uniqueness of sender addresses\<close>

lemma batchBody_unique: "uniqueEmails (db r) \<Longrightarrow> uniqueEmails (db (batchBody w b n c r))"
proof -
  assume u: "uniqueEmails (db r)"
  show ?thesis
  proof (cases "processBatch w c (batchEnd b n c)")
    case (Inl e)
    then show ?thesis
      using u by (simp add: batchBody_def Let_def split_beta uniqueEmails_def)
  next
    case (Inr xs)
    have u1: "uniqueEmails (snd (filterNew (db r) xs))"
      using u by (simp add: uniqueEmails_def)
    have "uniqueEmails (snd (saveSendersBatch (snd (filterNew (db r) xs)) (fst (filterNew (db r) xs))))"
      using u1 by (rule saveSendersBatch_unique)
    then show ?thesis
      using u1 Inr by (simp add: batchBody_def Let_def split_beta uniqueEmails_def)
  qed
qed

lemma batchLoop_unique:
  "uniqueEmails (db r) \<Longrightarrow> batchLoop fuel w b n c r = Some r' \<Longrightarrow> uniqueEmails (db r')"
proof (induction fuel arbitrary: c r)
  case 0
  then show ?case by (cases "c \<le> n") (simp_all add: batchLoop_0 batchLoop_exit)
next
  case (Suc fuel)
  show ?case
  proof (cases "c \<le> n")
    case True
    then have "batchLoop fuel w b n (c + b) (batchBody w b n c r) = Some r'"
      using Suc.prems(2) by (simp add: batchLoop_Suc)
    moreover have "uniqueEmails (db (batchBody w b n c r))"
      using Suc.prems(1) by (rule batchBody_unique)
    ultimately show ?thesis using Suc.IH by blast
  next
    case False
    then show ?thesis using Suc.prems by (simp add: batchLoop_exit)
  qed
qed

lemma scanEmailsBatch_unique:
  assumes "uniqueEmails d" and "scanEmailsBatch fuel config w d = Some res"
  shows "uniqueEmails (resultDB res)"
proof -
  have u1: "uniqueEmails (snd (loadProgress d))"
    using assms(1) by (simp add: uniqueEmails_def)
  from assms(2) show ?thesis
  proof (cases rule: scanEmailsBatch_cases)
    case (failed e)
    then show ?thesis using u1 by (simp add: resultDB_def)
  next
    case (idle p ev)
    then show ?thesis using u1 by (simp add: resultDB_def)
  next
    case (looped p r')
    have "uniqueEmails (db r')"
      using batchLoop_unique [OF _ looped(4)] u1 by simp
    then show ?thesis using looped(5) by (simp add: resultDB_def)
  qed
qed

lemma scanRuns_unique:
  "uniqueEmails d \<Longrightarrow> scanRuns fuel runs d = Some d' \<Longrightarrow> uniqueEmails d'"
proof (induction runs arbitrary: d)
  case Nil
  then show ?case by simp
next
  case (Cons run runs)
  obtain config w where run: "run = (config, w)" by (cases run)
  from Cons.prems(2) obtain res where res: "scanEmailsBatch fuel config w d = Some res"
      "scanRuns fuel runs (resultDB res) = Some d'"
    by (auto simp: run split: option.splits)
  have "uniqueEmails (resultDB res)"
    using Cons.prems(1) res(1) by (rule scanEmailsBatch_unique)
  then show ?case using Cons.IH res(2) by blast
qed

lemma distinct_filter_le1:
  "distinct (map f xs) \<Longrightarrow> length (filter (\<lambda>x. f x = a) xs) \<le> 1"
proof (induction xs)
  case Nil
  then show ?case by simp
next
  case (Cons x xs)
  show ?case
  proof (cases "f x = a")
    case True
    then have "a \<notin> f ` set xs" using Cons.prems by auto
    then have "filter (\<lambda>x. f x = a) xs = []" by (auto simp: filter_empty_conv)
    then show ?thesis using True by simp
  next
    case False
    then show ?thesis using Cons by simp
  qed
qed

lemma initDB_unique: "initDB (newDatabase fs) = Inr d0 \<Longrightarrow> uniqueEmails d0"
  by (auto simp: initDB_def Let_def split_beta uniqueEmails_def newDatabase_def split: if_splits)

text \<open>
  Claim C4. A freshly initialised database has no two sender rows with the same address. The
  batch insert keeps that for every list of identities it is handed, whatever the fault script
  and without any existence check before it: the constraint of the table alone gives it. So
  after any sequence of runs that end, on any mailboxes and under any storage faults, the
  addresses of the rows are pairwise distinct and an address has at most one row.
\<close>

theorem sender_addresses_stay_unique:
  "(initDB (newDatabase fs) = Inr d0 \<longrightarrow> uniqueEmails d0)
   \<and> (uniqueEmails d \<longrightarrow> uniqueEmails (snd (saveSendersBatch d xs)))
   \<and> (uniqueEmails d \<and> scanRuns fuel runs d = Some d' \<longrightarrow>
        distinct (map Email (senders d'))
        \<and> length (filter (\<lambda>row. Email row = a) (senders d')) \<le> 1)"
proof -
  have "uniqueEmails d \<and> scanRuns fuel runs d = Some d' \<longrightarrow>
        distinct (map Email (senders d'))
        \<and> length (filter (\<lambda>row. Email row = a) (senders d')) \<le> 1"
  proof
    assume "uniqueEmails d \<and> scanRuns fuel runs d = Some d'"
    then have "uniqueEmails d'" using scanRuns_unique by blast
    then have "distinct (map Email (senders d'))" by (simp add: uniqueEmails_def)
    then show "distinct (map Email (senders d'))
        \<and> length (filter (\<lambda>row. Email row = a) (senders d')) \<le> 1"
      using distinct_filter_le1 [of Email "senders d'" a] by simp
  qed
  then show ?thesis
    using initDB_unique [of fs d0] saveSendersBatch_unique [of d xs] by blast
qed

theorem sender_addresses_stay_unique_witness:
  "initDB (newDatabase []) = Inr freshDB
   \<and> uniqueEmails freshDB
   \<and> uniqueEmails (snd (saveSendersBatch freshDB
        [\<lparr>FullName = ''A'', Email = ''a@x.com''\<rparr>, \<lparr>FullName = ''B'', Email = ''a@x.com''\<rparr>]))
   \<and> scanRuns 1 [(\<lparr>BatchSize = 500\<rparr>, sampleWorld 3), (\<lparr>BatchSize = 500\<rparr>, sampleWorld 3)] freshDB =
       Some \<lparr>senders = [\<lparr>FullName = ''John Doe'', Email = ''john.doe@x.com''\<rparr>],
             scan_progress = Some \<lparr>LastProcessedUID = 3, TotalMessages = 3, ProcessedCount = 3\<rparr>,
             faults = []\<rparr>
   \<and> length (filter (\<lambda>row. Email row = ''john.doe@x.com'')
        [\<lparr>FullName = ''John Doe'', Email = ''john.doe@x.com''\<rparr>]) \<le> 1"
proof -
  have init: "initDB (newDatabase []) = Inr freshDB"
    by (simp add: initDB_def newDatabase_def nextFault_def freshDB_def)
  have runs: "scanRuns 1 [(\<lparr>BatchSize = 500\<rparr>, sampleWorld 3), (\<lparr>BatchSize = 500\<rparr>, sampleWorld 3)] freshDB =
       Some \<lparr>senders = [\<lparr>FullName = ''John Doe'', Email = ''john.doe@x.com''\<rparr>],
             scan_progress = Some \<lparr>LastProcessedUID = 3, TotalMessages = 3, ProcessedCount = 3\<rparr>,
             faults = []\<rparr>"
    by code_simp
  have fresh: "uniqueEmails freshDB"
    using sender_addresses_stay_unique [of "[]" freshDB] init by simp
  show ?thesis
    using sender_addresses_stay_unique [of "[]" freshDB freshDB
        "[\<lparr>FullName = ''A'', Email = ''a@x.com''\<rparr>, \<lparr>FullName = ''B'', Email = ''a@x.com''\<rparr>]"
        1 "[(\<lparr>BatchSize = 500\<rparr>, sampleWorld 3), (\<lparr>BatchSize = 500\<rparr>, sampleWorld 3)]"
        "\<lparr>senders = [\<lparr>FullName = ''John Doe'', Email = ''john.doe@x.com''\<rparr>],
             scan_progress = Some \<lparr>LastProcessedUID = 3, TotalMessages = 3, ProcessedCount = 3\<rparr>,
             faults = []\<rparr>" "''john.doe@x.com''"]
      init runs fresh
    by simp
qed

section \<open>The existence check under a storage error\<close>

text \<open>
  Claim C2 as stated fails: the statement of the lookup returns an error, the address has a
  row in the table, and \<open>emailExists\<close> answers \<open>false\<close>; its result is a bare boolean with
  no error beside it.
\<close>

theorem emailExists_error_counterexample:
  "fst (nextFault \<lparr>senders = [\<lparr>FullName = ''A'', Email = ''a@x.com''\<rparr>],
                   scan_progress = None, faults = [True]\<rparr>)
   \<and> ''a@x.com'' \<in> set (map Email (senders \<lparr>senders = [\<lparr>FullName = ''A'', Email = ''a@x.com''\<rparr>],
                   scan_progress = None, faults = [True]\<rparr>))
   \<and> fst (emailExists \<lparr>senders = [\<lparr>FullName = ''A'', Email = ''a@x.com''\<rparr>],
                       scan_progress = None, faults = [True]\<rparr> ''a@x.com'') = False"
  by (simp add: emailExists_def nextFault_def)

text \<open>
  Claim C2, amended. When the lookup statement fails, \<open>emailExists\<close> reports the address as
  absent, whatever the table holds, and nothing but the consumed fault changes in the
  database; no error reaches the caller.
\<close>

theorem emailExists_absent_on_error:
  "fst (nextFault d) \<Longrightarrow> emailExists d email = (False, snd (nextFault d))"
  by (simp add: emailExists_def split_beta)

theorem emailExists_absent_on_error_witness:
  "fst (nextFault \<lparr>senders = [\<lparr>FullName = ''B'', Email = ''b@x.com''\<rparr>],
                   scan_progress = None, faults = [True, False]\<rparr>)
   \<and> emailExists \<lparr>senders = [\<lparr>FullName = ''B'', Email = ''b@x.com''\<rparr>],
                  scan_progress = None, faults = [True, False]\<rparr> ''b@x.com'' =
       (False, \<lparr>senders = [\<lparr>FullName = ''B'', Email = ''b@x.com''\<rparr>],
                scan_progress = None, faults = [False]\<rparr>)"
proof -
  have failing: "fst (nextFault \<lparr>senders = [\<lparr>FullName = ''B'', Email = ''b@x.com''\<rparr>],
                   scan_progress = None, faults = [True, False]\<rparr>)"
    by (simp add: nextFault_def)
  show ?thesis
    using emailExists_absent_on_error [OF failing, of "''b@x.com''"] failing
    by (simp add: nextFault_def)
qed

section \<open>The batch consumer\<close>

lemma consume_skip: "resolve w msg = None \<Longrightarrow> consume w (msg # msgs) m = consume w msgs m"
  by (cases msg) (auto simp: Let_def split: if_splits)

lemma consume_keep:
  "resolve w msg = Some s \<Longrightarrow>
   consume w (msg # msgs) m =
     consume w msgs (if map_of m (Email s) = None then m @ [(Email s, s)] else m)"
  by (cases msg) (auto simp: Let_def split: if_splits)

lemma consume_append: "consume w (xs @ ys) m = consume w ys (consume w xs m)"
proof (induction xs arbitrary: m)
  case Nil
  then show ?case by simp
next
  case (Cons x xs)
  then show ?case
    by (cases "resolve w x") (simp_all add: consume_skip consume_keep del: consume.simps)
qed

lemma observed_Cons:
  "observed w (msg # msgs) =
     (case resolve w msg of None \<Rightarrow> observed w msgs | Some s \<Rightarrow> s # observed w msgs)"
  by (simp add: observed_def map_filter_simps split: option.split)

text \<open>What \<open>senderMap\<close> holds for an address after a stream: the entry it had, or else the
  first identity of the stream with that address.\<close>

lemma consume_lookup:
  "map_of (consume w msgs m) a =
     (case map_of m a of
        Some s \<Rightarrow> Some s
      | None \<Rightarrow> find (\<lambda>s. Email s = a) (observed w msgs))"
proof (induction msgs arbitrary: m)
  case Nil
  then show ?case by (simp add: observed_def map_filter_simps split: option.split)
next
  case (Cons msg msgs)
  show ?case
  proof (cases "resolve w msg")
    case None
    then show ?thesis
      using Cons.IH [of m]
      by (simp add: consume_skip observed_Cons del: consume.simps split: option.split)
  next
    case (Some s)
    show ?thesis
    proof (cases "map_of m (Email s)")
      case None
      have "map_of (m @ [(Email s, s)]) a =
          (case map_of m a of Some t \<Rightarrow> Some t | None \<Rightarrow> if Email s = a then Some s else None)"
        by (simp add: map_add_def split: option.split)
      then show ?thesis
        using Some None Cons.IH [of "m @ [(Email s, s)]"]
        by (auto simp add: consume_keep observed_Cons
            simp del: consume.simps map_of_append split: option.split)
    next
      case present: (Some t)
      then show ?thesis
        using Some Cons.IH [of m]
        by (auto simp add: consume_keep observed_Cons simp del: consume.simps split: option.split)
    qed
  qed
qed

lemma consume_keyed: "keyed m \<Longrightarrow> keyed (consume w msgs m)"
proof (induction msgs arbitrary: m)
  case Nil
  then show ?case by simp
next
  case (Cons msg msgs)
  show ?case
  proof (cases "resolve w msg")
    case None
    then show ?thesis using Cons by (simp add: consume_skip del: consume.simps)
  next
    case (Some s)
    have "map_of m (Email s) = None \<Longrightarrow> keyed (m @ [(Email s, s)])"
      using Cons.prems by (auto simp: keyed_def map_of_eq_None_iff)
    then show ?thesis
      using Some Cons by (simp add: consume_keep del: consume.simps)
  qed
qed

lemma senderMap_values:
  "x \<in> set (map snd (consume w msgs [])) \<longleftrightarrow>
     find (\<lambda>s. Email s = Email x) (observed w msgs) = Some x"
proof -
  let ?M = "consume w msgs []"
  have k: "keyed ?M" by (rule consume_keyed) (simp add: keyed_def)
  have look: "\<And>a. map_of ?M a = find (\<lambda>s. Email s = a) (observed w msgs)"
    by (simp add: consume_lookup)
  show ?thesis
  proof
    assume "x \<in> set (map snd ?M)"
    then obtain key where kx: "(key, x) \<in> set ?M" by auto
    then have "key = Email x" using k by (auto simp: keyed_def list_all_iff)
    moreover have "map_of ?M key = Some x" using kx k by (simp add: keyed_def)
    ultimately show "find (\<lambda>s. Email s = Email x) (observed w msgs) = Some x"
      using look by simp
  next
    assume "find (\<lambda>s. Email s = Email x) (observed w msgs) = Some x"
    then have "map_of ?M (Email x) = Some x" using look by simp
    then have "(Email x, x) \<in> set ?M" by (rule map_of_SomeD)
    then show "x \<in> set (map snd ?M)" by force
  qed
qed

lemma parseSender_failure:
  "ParseAddress w h = None \<Longrightarrow> parseSender w h = \<lparr>FullName = [], Email = []\<rparr>"
  by (simp add: parseSender_def)

text \<open>
  Claim C7. When the address parser rejects a From header, the resolver returns the identity
  with both fields empty. A message with such a header, anywhere in the stream of a batch,
  leaves \<open>senderMap\<close> as the stream without it does, so the messages after it are processed
  as before; and the batch is an error only when the fetch itself reports one.
\<close>

theorem unparsable_header_skipped:
  assumes "ParseAddress w h = None"
  shows "parseSender w h = \<lparr>FullName = [], Email = []\<rparr>
    \<and> consume w (pre @ Entity h # post) m = consume w (pre @ post) m
    \<and> (Fetch w startUID endUID = (pre @ Entity h # post, done) \<longrightarrow>
         processBatch w startUID endUID =
           (case done of
              Some e \<Rightarrow> Inl e
            | None \<Rightarrow> Inr (rangeOrder w (map snd (consume w (pre @ post) [])))))"
proof -
  have empty: "parseSender w h = \<lparr>FullName = [], Email = []\<rparr>"
    using assms by (rule parseSender_failure)
  then have "resolve w (Entity h) = None" by simp
  then have skip: "\<And>m. consume w (pre @ Entity h # post) m = consume w (pre @ post) m"
    by (simp add: consume_append consume_skip del: consume.simps)
  show ?thesis
    using empty skip by (simp add: processBatch_def)
qed

theorem unparsable_header_skipped_witness:
  "ParseAddress (sampleWorld 3) ''Not An Address'' = None
   \<and> parseSender (sampleWorld 3) ''Not An Address'' = \<lparr>FullName = [], Email = []\<rparr>
   \<and> Fetch (sampleWorld 3) 1 3 =
       ([] @ Entity ''Not An Address'' #
          [Entity ''John.Doe@X.com'', NoBody, Entity ''JD <john.doe@x.com>''], None)
   \<and> processBatch (sampleWorld 3) 1 3 =
       Inr [\<lparr>FullName = ''John Doe'', Email = ''john.doe@x.com''\<rparr>]"
proof -
  have rejected: "ParseAddress (sampleWorld 3) ''Not An Address'' = None"
    by code_simp
  have fetched: "Fetch (sampleWorld 3) 1 3 =
       ([] @ Entity ''Not An Address'' #
          [Entity ''John.Doe@X.com'', NoBody, Entity ''JD <john.doe@x.com>''], None)"
    by (simp add: sampleWorld_def)
  have rest: "rangeOrder (sampleWorld 3) (map snd (consume (sampleWorld 3)
        ([] @ [Entity ''John.Doe@X.com'', NoBody, Entity ''JD <john.doe@x.com>'']) [])) =
      [\<lparr>FullName = ''John Doe'', Email = ''john.doe@x.com''\<rparr>]"
    by code_simp
  show ?thesis
    using unparsable_header_skipped [OF rejected, of "[]"
        "[Entity ''John.Doe@X.com'', NoBody, Entity ''JD <john.doe@x.com>'']" "[]" 1 3 None]
      rejected fetched rest
    by simp
qed

text \<open>
  Claim C10. After the stream of a batch, \<open>senderMap\<close> holds for an address the first
  identity of the stream with that address; an entry, once there, is what any further
  messages leave there. The address is the lower case of the parsed one, as
  \<open>strings.ToLower\<close> gives it: when the first message that yields an identity has the
  lower-cased address \<open>k\<close>, its identity is the one held under \<open>k\<close> after any further
  messages, whatever case they write the address in. When the fetch succeeds and the order Go
  picks for the map is an enumeration of it, the identities the batch returns are exactly
  these first observations.
\<close>

theorem first_observation_kept:
  "map_of (consume w msgs []) a = find (\<lambda>s. Email s = a) (observed w msgs)
   \<and> (map_of m a = Some s \<longrightarrow> map_of (consume w msgs m) a = Some s)
   \<and> (h \<noteq> [] \<and> ParseAddress w h = Some addr \<and> ToLower (Unicode w) (Address addr) \<noteq> [] \<longrightarrow>
        map_of (consume w (Entity h # msgs) []) (ToLower (Unicode w) (Address addr)) =
          Some (parseSender w h)
        \<and> Email (parseSender w h) = ToLower (Unicode w) (Address addr))
   \<and> (Fetch w startUID endUID = (msgs, None) \<and> (\<forall>xs. set (rangeOrder w xs) = set xs) \<longrightarrow>
        (\<exists>found. processBatch w startUID endUID = Inr found
           \<and> (\<forall>x. x \<in> set found \<longleftrightarrow>
                 find (\<lambda>s. Email s = Email x) (observed w msgs) = Some x)))"
proof -
  have first: "map_of (consume w msgs []) a = find (\<lambda>s. Email s = a) (observed w msgs)"
    by (simp add: consume_lookup)
  have kept: "map_of m a = Some s \<longrightarrow> map_of (consume w msgs m) a = Some s"
    by (simp add: consume_lookup)
  have head: "h \<noteq> [] \<and> ParseAddress w h = Some addr \<and> ToLower (Unicode w) (Address addr) \<noteq> [] \<longrightarrow>
        map_of (consume w (Entity h # msgs) []) (ToLower (Unicode w) (Address addr)) =
          Some (parseSender w h)
        \<and> Email (parseSender w h) = ToLower (Unicode w) (Address addr)"
  proof
    assume hyp: "h \<noteq> [] \<and> ParseAddress w h = Some addr \<and> ToLower (Unicode w) (Address addr) \<noteq> []"
    then have key: "Email (parseSender w h) = ToLower (Unicode w) (Address addr)"
      by (simp add: parseSender_def Let_def)
    then have "resolve w (Entity h) = Some (parseSender w h)"
      using hyp by (simp add: Let_def)
    then have "observed w (Entity h # msgs) = parseSender w h # observed w msgs"
      by (simp add: observed_Cons del: resolve.simps)
    then have "map_of (consume w (Entity h # msgs) []) (ToLower (Unicode w) (Address addr)) =
        Some (parseSender w h)"
      using key by (simp add: consume_lookup del: consume.simps)
    then show "map_of (consume w (Entity h # msgs) []) (ToLower (Unicode w) (Address addr)) =
          Some (parseSender w h)
        \<and> Email (parseSender w h) = ToLower (Unicode w) (Address addr)"
      using key by simp
  qed
  have batch: "Fetch w startUID endUID = (msgs, None) \<and> (\<forall>xs. set (rangeOrder w xs) = set xs) \<longrightarrow>
        (\<exists>found. processBatch w startUID endUID = Inr found
           \<and> (\<forall>x. x \<in> set found \<longleftrightarrow>
                 find (\<lambda>s. Email s = Email x) (observed w msgs) = Some x))"
  proof
    assume h: "Fetch w startUID endUID = (msgs, None) \<and> (\<forall>xs. set (rangeOrder w xs) = set xs)"
    then have "processBatch w startUID endUID =
        Inr (rangeOrder w (map snd (consume w msgs [])))"
      by (simp add: processBatch_def)
    moreover have "\<forall>x. x \<in> set (rangeOrder w (map snd (consume w msgs []))) \<longleftrightarrow>
        find (\<lambda>s. Email s = Email x) (observed w msgs) = Some x"
      using h senderMap_values [of _ w msgs] by simp
    ultimately show "\<exists>found. processBatch w startUID endUID = Inr found
           \<and> (\<forall>x. x \<in> set found \<longleftrightarrow>
                 find (\<lambda>s. Email s = Email x) (observed w msgs) = Some x)"
      by blast
  qed
  show ?thesis using first kept head batch by blast
qed

theorem first_observation_kept_witness:
  "observed zolaWorld (fst (Fetch zolaWorld 1 2)) =
     [\<lparr>FullName = CHR 0xC3 # CHR 0x89 # ''mile Zola'', Email = emileZola\<rparr>,
      \<lparr>FullName = ''Zola'', Email = emileZola\<rparr>]
   \<and> map_of (consume zolaWorld (fst (Fetch zolaWorld 1 2)) []) emileZola =
       Some \<lparr>FullName = CHR 0xC3 # CHR 0x89 # ''mile Zola'', Email = emileZola\<rparr>
   \<and> map_of [(emileZola, \<lparr>FullName = ''Earlier'', Email = emileZola\<rparr>)] emileZola =
       Some \<lparr>FullName = ''Earlier'', Email = emileZola\<rparr>
   \<and> map_of (consume zolaWorld (fst (Fetch zolaWorld 1 2))
         [(emileZola, \<lparr>FullName = ''Earlier'', Email = emileZola\<rparr>)]) emileZola =
       Some \<lparr>FullName = ''Earlier'', Email = emileZola\<rparr>
   \<and> EmileZola \<noteq> [] \<and> ParseAddress zolaWorld EmileZola = Some \<lparr>Name = [], Address = EmileZola\<rparr>
   \<and> ToLower (Unicode zolaWorld) (Address \<lparr>Name = [], Address = EmileZola\<rparr>) = emileZola
   \<and> emileZola \<noteq> []
   \<and> map_of (consume zolaWorld
         (Entity EmileZola # [Entity (''Zola <'' @ emileZola @ ''>'')]) []) emileZola =
       Some (parseSender zolaWorld EmileZola)
   \<and> Fetch zolaWorld 1 2 = (fst (Fetch zolaWorld 1 2), None)
   \<and> (\<forall>xs. set (rangeOrder zolaWorld xs) = set xs)
   \<and> (\<exists>found. processBatch zolaWorld 1 2 = Inr found
         \<and> set found = {\<lparr>FullName = CHR 0xC3 # CHR 0x89 # ''mile Zola'', Email = emileZola\<rparr>})"
proof -
  let ?w = "zolaWorld"
  let ?msgs = "fst (Fetch ?w 1 2)"
  let ?first = "\<lparr>FullName = CHR 0xC3 # CHR 0x89 # ''mile Zola'', Email = emileZola\<rparr>"
  let ?early = "[(emileZola, \<lparr>FullName = ''Earlier'', Email = emileZola\<rparr>)]"
  let ?addr = "\<lparr>Name = [], Address = EmileZola\<rparr>"
  have obs: "observed ?w ?msgs = [?first, \<lparr>FullName = ''Zola'', Email = emileZola\<rparr>]"
    by code_simp
  have fetched: "Fetch ?w 1 2 = (?msgs, None)"
    by (simp add: zolaWorld_def)
  have order: "\<forall>xs. set (rangeOrder ?w xs) = set xs"
    by (simp add: zolaWorld_def sampleWorld_def)
  have early: "map_of ?early emileZola = Some \<lparr>FullName = ''Earlier'', Email = emileZola\<rparr>"
    by simp
  have header: "EmileZola \<noteq> []" "emileZola \<noteq> []"
    by (simp_all add: EmileZola_def emileZola_def)
  have parsed: "ParseAddress ?w EmileZola = Some ?addr"
    by code_simp
  have lower: "ToLower (Unicode ?w) (Address ?addr) = emileZola"
    by code_simp
  note inst = first_observation_kept [of ?w ?msgs emileZola ?early
      "\<lparr>FullName = ''Earlier'', Email = emileZola\<rparr>" EmileZola ?addr 1 2]
  have a: "map_of (consume ?w ?msgs []) emileZola = Some ?first"
    using inst obs by simp
  have b: "map_of (consume ?w ?msgs ?early) emileZola =
      Some \<lparr>FullName = ''Earlier'', Email = emileZola\<rparr>"
    using inst early by blast
  have ne: "ToLower (Unicode ?w) (Address ?addr) \<noteq> []"
    using header(2) lower by metis
  have "map_of (consume ?w (Entity EmileZola # [Entity (''Zola <'' @ emileZola @ ''>'')]) [])
        (ToLower (Unicode ?w) (Address ?addr)) = Some (parseSender ?w EmileZola)"
    using first_observation_kept [of ?w "[Entity (''Zola <'' @ emileZola @ ''>'')]" emileZola
        ?early "\<lparr>FullName = ''Earlier'', Email = emileZola\<rparr>" EmileZola ?addr 1 2]
      header(1) parsed ne
    by blast
  then have c: "map_of (consume ?w (Entity EmileZola # [Entity (''Zola <'' @ emileZola @ ''>'')]) [])
        emileZola = Some (parseSender ?w EmileZola)"
    using lower by metis
  have d: "processBatch ?w 1 2 = Inr [?first]"
    by code_simp
  have e: "\<exists>found. processBatch ?w 1 2 = Inr found \<and> set found = {?first}"
    using d by simp
  show ?thesis
    using obs a early b header parsed lower c fetched order e by blast
qed

section \<open>Passes of the loop without storage faults\<close>

lemma processBatch_ok:
  "snd (Fetch w s e) = None \<Longrightarrow> \<exists>xs. processBatch w s e = Inr xs"
  by (simp add: processBatch_def split_beta)

lemma processBatch_error:
  "snd (Fetch w s e) = Some err \<Longrightarrow> processBatch w s e = Inl err"
  by (simp add: processBatch_def split_beta)

text \<open>One pass without storage faults, after a fetch that succeeded.\<close>

lemma batchBody_quiet:
  assumes "faults (db r) = []" and "snd (Fetch w c (batchEnd b n c)) = None"
  shows "faults (db (batchBody w b n c r)) = []"
    and "progress (batchBody w b n c r) =
           (progress r)\<lparr>LastProcessedUID := batchEnd b n c, ProcessedCount := batchEnd b n c\<rparr>"
    and "scan_progress (db (batchBody w b n c r)) =
           (case scan_progress (db r) of
              None \<Rightarrow> None
            | Some _ \<Rightarrow> Some ((progress r)\<lparr>LastProcessedUID := batchEnd b n c,
                                            ProcessedCount := batchEnd b n c\<rparr>))"
    and "events (batchBody w b n c r) = events r @ [ProcessingBatch c (batchEnd b n c)]"
proof -
  obtain xs where xs: "processBatch w c (batchEnd b n c) = Inr xs"
    using processBatch_ok [OF assms(2)] by blast
  let ?d1 = "snd (filterNew (db r) xs)"
  let ?new = "fst (filterNew (db r) xs)"
  let ?s = "if ?new \<noteq> [] then saveSendersBatch ?d1 ?new else (None, ?d1)"
  have q1: "faults ?d1 = []" using assms(1) by (rule filterNew_quiet)
  have q2: "fst ?s = None \<and> faults (snd ?s) = []"
    using q1 saveSendersBatch_quiet [of ?d1 ?new] by simp
  have sp: "scan_progress (snd ?s) = scan_progress (db r)" by simp
  let ?p = "(progress r)\<lparr>LastProcessedUID := batchEnd b n c, ProcessedCount := batchEnd b n c\<rparr>"
  have save: "saveProgress (snd ?s) ?p =
      (None, (snd ?s)\<lparr>scan_progress := (case scan_progress (db r) of None \<Rightarrow> None | Some _ \<Rightarrow> Some ?p)\<rparr>)"
    using q2 sp saveProgress_quiet [of "snd ?s" ?p] by simp
  have body: "batchBody w b n c r =
      \<lparr>db = (snd ?s)\<lparr>scan_progress := (case scan_progress (db r) of None \<Rightarrow> None | Some _ \<Rightarrow> Some ?p)\<rparr>,
       progress = ?p, events = events r @ [ProcessingBatch c (batchEnd b n c)]\<rparr>"
    using xs q2 save by (simp add: batchBody_def Let_def split_beta)
  show "faults (db (batchBody w b n c r)) = []" using body q2 by simp
  show "progress (batchBody w b n c r) = ?p" using body by simp
  show "scan_progress (db (batchBody w b n c r)) =
           (case scan_progress (db r) of None \<Rightarrow> None | Some _ \<Rightarrow> Some ?p)"
    using body by simp
  show "events (batchBody w b n c r) = events r @ [ProcessingBatch c (batchEnd b n c)]"
    using body by simp
qed

text \<open>One pass whose fetch fails.\<close>

lemma batchBody_fetch_error:
  assumes "snd (Fetch w c (batchEnd b n c)) = Some err"
  shows "batchBody w b n c r =
      \<lparr>db = snd (saveProgress (db r) ((progress r)\<lparr>LastProcessedUID := c - 1\<rparr>)),
       progress = (progress r)\<lparr>LastProcessedUID := c - 1\<rparr>,
       events = events r @ [ProcessingBatch c (batchEnd b n c), BatchProcessingError]\<rparr>"
  using processBatch_error [OF assms] by (simp add: batchBody_def Let_def split_beta)

text \<open>What a pass without storage faults stores.\<close>

lemma emailExists_quiet_result:
  "faults d = [] \<Longrightarrow> emailExists d e = (e \<in> Email ` set (senders d), d)"
  by (auto simp: emailExists_def nextFault_quiet filter_empty_conv)

lemma filterNew_quiet_result:
  "faults d = [] \<Longrightarrow>
   filterNew d xs = (filter (\<lambda>s. Email s \<notin> Email ` set (senders d)) xs, d)"
  by (induction xs) (simp_all add: emailExists_quiet_result)

lemma execInserts_quiet_result:
  "faults d = [] \<Longrightarrow> execInserts d xs = d\<lparr>senders := storeAll (senders d) xs\<rparr>"
  by (induction xs arbitrary: d) (simp_all add: nextFault_quiet storeAll_def)

lemma saveSendersBatch_quiet_result:
  "faults d = [] \<Longrightarrow> saveSendersBatch d xs = (None, d\<lparr>senders := storeAll (senders d) xs\<rparr>)"
  by (simp add: saveSendersBatch_def nextFault_quiet execInserts_quiet_result storeAll_def)

lemma storeAll_Cons: "storeAll rows (x # xs) = storeAll (insertOrIgnore rows x) xs"
  by (simp add: storeAll_def)

lemma storeAll_append: "storeAll rows (xs @ ys) = storeAll (storeAll rows xs) ys"
  by (simp add: storeAll_def)

lemma emails_insertOrIgnore:
  "Email ` set (insertOrIgnore rows x) = insert (Email x) (Email ` set rows)"
  by (auto simp: insertOrIgnore_def)

lemma emails_storeAll:
  "Email ` set (storeAll rows xs) = Email ` set rows \<union> Email ` set xs"
proof (induction xs arbitrary: rows)
  case Nil
  then show ?case by (simp add: storeAll_def)
next
  case (Cons x xs)
  show ?case
    unfolding storeAll_Cons Cons.IH emails_insertOrIgnore by auto
qed

text \<open>Leaving out identities whose address the table has does not change what is stored.\<close>

lemma storeAll_filter:
  "(\<And>s. \<not> P s \<Longrightarrow> Email s \<in> Email ` set rows) \<Longrightarrow>
   storeAll rows (filter P xs) = storeAll rows xs"
proof (induction xs arbitrary: rows)
  case Nil
  then show ?case by simp
next
  case (Cons x xs)
  show ?case
  proof (cases "P x")
    case True
    have "\<And>s. \<not> P s \<Longrightarrow> Email s \<in> Email ` set (insertOrIgnore rows x)"
      unfolding emails_insertOrIgnore using Cons.prems by blast
    then show ?thesis using True Cons.IH by (simp add: storeAll_Cons)
  next
    case False
    then have "insertOrIgnore rows x = rows"
      using Cons.prems [of x] by (simp add: insertOrIgnore_def)
    then show ?thesis using False Cons.IH [OF Cons.prems] by (simp add: storeAll_Cons)
  qed
qed

lemma processBatch_fetched:
  "snd (Fetch w s e) = None \<Longrightarrow> processBatch w s e = Inr (batchSenders w s e)"
  by (simp add: processBatch_def batchSenders_def split_beta)

lemma batchBody_quiet_senders:
  assumes "faults (db r) = []" and "snd (Fetch w c (batchEnd b n c)) = None"
  shows "senders (db (batchBody w b n c r)) =
     storeAll (senders (db r)) (batchSenders w c (batchEnd b n c))"
proof -
  let ?xs = "batchSenders w c (batchEnd b n c)"
  let ?new = "filter (\<lambda>s. Email s \<notin> Email ` set (senders (db r))) ?xs"
  have fetched: "processBatch w c (batchEnd b n c) = Inr ?xs"
    using assms(2) by (rule processBatch_fetched)
  have filtered: "filterNew (db r) ?xs = (?new, db r)"
    using assms(1) by (rule filterNew_quiet_result)
  have same: "storeAll (senders (db r)) ?new = storeAll (senders (db r)) ?xs"
    by (rule storeAll_filter) simp
  have saved: "(if ?new \<noteq> [] then saveSendersBatch (db r) ?new else (None, db r)) =
      (None, (db r)\<lparr>senders := storeAll (senders (db r)) ?xs\<rparr>)"
  proof (cases "?new = []")
    case True
    then have "storeAll (senders (db r)) ?xs = senders (db r)"
      using same by (simp add: storeAll_def)
    then show ?thesis using True by simp
  next
    case False
    then show ?thesis
      using saveSendersBatch_quiet_result [OF assms(1), of ?new] same by simp
  qed
  have "batchBody w b n c r =
      \<lparr>db = snd (saveProgress ((db r)\<lparr>senders := storeAll (senders (db r)) ?xs\<rparr>)
                ((progress r)\<lparr>LastProcessedUID := batchEnd b n c,
                              ProcessedCount := batchEnd b n c\<rparr>)),
       progress = (progress r)\<lparr>LastProcessedUID := batchEnd b n c,
                              ProcessedCount := batchEnd b n c\<rparr>,
       events = (if fst (saveProgress ((db r)\<lparr>senders := storeAll (senders (db r)) ?xs\<rparr>)
                ((progress r)\<lparr>LastProcessedUID := batchEnd b n c,
                              ProcessedCount := batchEnd b n c\<rparr>)) \<noteq> None
                 then (events r @ [ProcessingBatch c (batchEnd b n c)]) @ [ProgressSaveError]
                 else events r @ [ProcessingBatch c (batchEnd b n c)])\<rparr>"
    by (simp only: batchBody_def Let_def split_beta fetched sum.case filtered fst_conv snd_conv
        saved simp_thms if_False)
  then show ?thesis by simp
qed

lemma observed_append: "observed w (xs @ ys) = observed w xs @ observed w ys"
  by (simp add: observed_def map_filter_def)

lemma emails_batchSenders:
  assumes "\<forall>xs. set (rangeOrder w xs) = set xs"
  shows "Email ` set (batchSenders w s e) = Email ` set (observed w (fst (Fetch w s e)))"
proof -
  let ?msgs = "fst (Fetch w s e)"
  have in_map: "\<And>x. x \<in> set (batchSenders w s e) \<longleftrightarrow>
      find (\<lambda>t. Email t = Email x) (observed w ?msgs) = Some x"
    using assms senderMap_values [of _ w ?msgs] by (simp add: batchSenders_def)
  show ?thesis
  proof (intro equalityI subsetI)
    fix a assume "a \<in> Email ` set (batchSenders w s e)"
    then obtain x where "x \<in> set (batchSenders w s e)" "a = Email x" by blast
    then have "find (\<lambda>t. Email t = Email x) (observed w ?msgs) = Some x" using in_map by blast
    then have "x \<in> set (observed w ?msgs)" by (auto simp: find_Some_iff)
    then show "a \<in> Email ` set (observed w ?msgs)" using \<open>a = Email x\<close> by blast
  next
    fix a assume "a \<in> Email ` set (observed w ?msgs)"
    then obtain y where y: "y \<in> set (observed w ?msgs)" "a = Email y" by blast
    then have "find (\<lambda>t. Email t = Email y) (observed w ?msgs) \<noteq> None"
      by (auto simp: find_None_iff)
    then obtain x where x: "find (\<lambda>t. Email t = Email y) (observed w ?msgs) = Some x" by blast
    then have e: "Email x = Email y" by (auto simp: find_Some_iff)
    then have "x \<in> set (batchSenders w s e)" using x in_map by simp
    then have "Email x \<in> Email ` set (batchSenders w s e)" by (rule imageI)
    then show "a \<in> Email ` set (batchSenders w s e)" using e y(2) by simp
  qed
qed

text \<open>
  Claim C8. Mailbox size 1247, batch width 500, a zeroed checkpoint, a session that opens, no
  fetch error and no storage fault: with room for three passes or more the run returns
  success, the batches it processed are 1 to 500, 501 to 1000 and 1001 to 1247 in this order,
  and the stored checkpoint ends with \<open>LastProcessedUID = 1247\<close> and
  \<open>ProcessedCount = 1247\<close>. Processed means read from the mailbox and stored: the table of
  senders after the run is the table before it with the identities of the three ranges
  stored one after the other, and, when the order Go picks for the map is an enumeration of
  it, the addresses in the table are those it had and those observed in the messages the
  mailbox delivers for the three ranges.
\<close>

theorem three_batches_of_1247:
  assumes "Messages w = 1247" and "BatchSize config = 500"
    and "\<not> DialTLSFails w" and "\<not> LoginFails w" and "\<not> SelectFails w"
    and "\<forall>s e. snd (Fetch w s e) = None"
    and "scan_progress d = Some \<lparr>LastProcessedUID = 0, TotalMessages = 0, ProcessedCount = 0\<rparr>"
    and "faults d = []" and "3 \<le> fuel"
  shows "\<exists>r. scanEmailsBatch fuel config w d = Some (Returned r)
    \<and> events r = [ProcessingBatch 1 500, ProcessingBatch 501 1000, ProcessingBatch 1001 1247,
                   ScanningCompleted]
    \<and> scan_progress (db r) =
          Some \<lparr>LastProcessedUID = 1247, TotalMessages = 1247, ProcessedCount = 1247\<rparr>
    \<and> senders (db r) =
          storeAll (senders d)
            (batchSenders w 1 500 @ batchSenders w 501 1000 @ batchSenders w 1001 1247)
    \<and> ((\<forall>xs. set (rangeOrder w xs) = set xs) \<longrightarrow>
          Email ` set (senders (db r)) =
            Email ` set (senders d)
            \<union> Email ` set (observed w (fst (Fetch w 1 500) @ fst (Fetch w 501 1000)
                                         @ fst (Fetch w 1001 1247))))"
proof -
  let ?z = "\<lparr>LastProcessedUID = 0, TotalMessages = 1247, ProcessedCount = 0\<rparr>"
  let ?r0 = "\<lparr>db = d, progress = ?z, events = []\<rparr>"
  let ?r1 = "batchBody w 500 1247 1 ?r0"
  let ?r2 = "batchBody w 500 1247 501 ?r1"
  let ?r3 = "batchBody w 500 1247 1001 ?r2"
  let ?all = "batchSenders w 1 500 @ batchSenders w 501 1000 @ batchSenders w 1001 1247"
  obtain k where fuel: "fuel = Suc (Suc (Suc k))"
    using assms(9) by (metis Suc_le_D numeral_3_eq_3 Suc_le_mono)
  have ends: "batchEnd 500 1247 1 = 500" "batchEnd 500 1247 501 = 1000" "batchEnd 500 1247 1001 = 1247"
    by (simp_all add: batchEnd_def)
  have f: "\<And>c. snd (Fetch w c (batchEnd 500 1247 c)) = None" using assms(6) by simp
  have s1: "faults (db ?r1) = []" "progress ?r1 = \<lparr>LastProcessedUID = 500, TotalMessages = 1247, ProcessedCount = 500\<rparr>"
     "scan_progress (db ?r1) = Some \<lparr>LastProcessedUID = 500, TotalMessages = 1247, ProcessedCount = 500\<rparr>"
     "events ?r1 = [ProcessingBatch 1 500]"
    using batchBody_quiet [of ?r0 w 1 500 1247, OF _ f] assms(7,8) by (simp_all add: ends)
  have s2: "faults (db ?r2) = []" "progress ?r2 = \<lparr>LastProcessedUID = 1000, TotalMessages = 1247, ProcessedCount = 1000\<rparr>"
     "scan_progress (db ?r2) = Some \<lparr>LastProcessedUID = 1000, TotalMessages = 1247, ProcessedCount = 1000\<rparr>"
     "events ?r2 = [ProcessingBatch 1 500, ProcessingBatch 501 1000]"
    using batchBody_quiet [of ?r1 w 501 500 1247, OF s1(1) f] s1 by (simp_all add: ends)
  have s3: "faults (db ?r3) = []" "progress ?r3 = \<lparr>LastProcessedUID = 1247, TotalMessages = 1247, ProcessedCount = 1247\<rparr>"
     "scan_progress (db ?r3) = Some \<lparr>LastProcessedUID = 1247, TotalMessages = 1247, ProcessedCount = 1247\<rparr>"
     "events ?r3 = [ProcessingBatch 1 500, ProcessingBatch 501 1000, ProcessingBatch 1001 1247]"
    using batchBody_quiet [of ?r2 w 1001 500 1247, OF s2(1) f] s2 by (simp_all add: ends)
  have t1: "senders (db ?r1) = storeAll (senders d) (batchSenders w 1 500)"
    using batchBody_quiet_senders [of ?r0 w 1 500 1247, OF _ f] assms(8) by (simp add: ends)
  have t2: "senders (db ?r2) = storeAll (senders (db ?r1)) (batchSenders w 501 1000)"
    using batchBody_quiet_senders [of ?r1 w 501 500 1247, OF s1(1) f] by (simp add: ends)
  have t3: "senders (db ?r3) = storeAll (senders (db ?r2)) (batchSenders w 1001 1247)"
    using batchBody_quiet_senders [of ?r2 w 1001 500 1247, OF s2(1) f] by (simp add: ends)
  have stored: "senders (db ?r3) = storeAll (senders d) ?all"
    by (simp only: t3 t2 t1 storeAll_append)
  have addresses: "(\<forall>xs. set (rangeOrder w xs) = set xs) \<longrightarrow>
      Email ` set (senders (db ?r3)) =
        Email ` set (senders d)
        \<union> Email ` set (observed w (fst (Fetch w 1 500) @ fst (Fetch w 501 1000)
                                     @ fst (Fetch w 1001 1247)))"
  proof
    assume order: "\<forall>xs. set (rangeOrder w xs) = set xs"
    have "Email ` set ?all =
        Email ` set (observed w (fst (Fetch w 1 500) @ fst (Fetch w 501 1000)
                                   @ fst (Fetch w 1001 1247)))"
      by (simp add: image_Un observed_append emails_batchSenders [OF order])
    then show "Email ` set (senders (db ?r3)) =
        Email ` set (senders d)
        \<union> Email ` set (observed w (fst (Fetch w 1 500) @ fst (Fetch w 501 1000)
                                     @ fst (Fetch w 1001 1247)))"
      by (simp only: stored emails_storeAll)
  qed
  have loop: "batchLoop fuel w 500 1247 1 ?r0 = Some ?r3"
    by (simp add: fuel batchLoop_Suc batchLoop_exit)
  have load: "loadProgress d = (Inr \<lparr>LastProcessedUID = 0, TotalMessages = 0, ProcessedCount = 0\<rparr>, d)"
    using assms(7,8) by (simp add: loadProgress_def nextFault_quiet)
  have "scanEmailsBatch fuel config w d = Some (Returned (?r3\<lparr>events := events ?r3 @ [ScanningCompleted]\<rparr>))"
    using assms(1-5) load loop by (simp add: scanEmailsBatch_def)
  then show ?thesis using s3 stored addresses by simp
qed

theorem three_batches_of_1247_witness:
  "Messages archiveWorld = 1247 \<and> BatchSize \<lparr>BatchSize = 500\<rparr> = 500
   \<and> \<not> DialTLSFails archiveWorld \<and> \<not> LoginFails archiveWorld
   \<and> \<not> SelectFails archiveWorld
   \<and> (\<forall>s e. snd (Fetch archiveWorld s e) = None)
   \<and> scan_progress freshDB =
        Some \<lparr>LastProcessedUID = 0, TotalMessages = 0, ProcessedCount = 0\<rparr>
   \<and> faults freshDB = [] \<and> (3::nat) \<le> 3
   \<and> (\<forall>xs. set (rangeOrder archiveWorld xs) = set xs)
   \<and> (\<exists>r. scanEmailsBatch 3 \<lparr>BatchSize = 500\<rparr> archiveWorld freshDB = Some (Returned r)
      \<and> events r = [ProcessingBatch 1 500, ProcessingBatch 501 1000, ProcessingBatch 1001 1247,
                     ScanningCompleted]
      \<and> scan_progress (db r) =
            Some \<lparr>LastProcessedUID = 1247, TotalMessages = 1247, ProcessedCount = 1247\<rparr>
      \<and> senders (db r) =
            [\<lparr>FullName = ''John Doe'', Email = ''john.doe@x.com''\<rparr>,
             \<lparr>FullName = CHR 0xC3 # CHR 0x89 # ''mile Zola'', Email = emileZola\<rparr>]
      \<and> Email ` set (senders (db r)) = {''john.doe@x.com'', emileZola})"
proof -
  have size: "Messages archiveWorld = 1247" "BatchSize \<lparr>BatchSize = 500\<rparr> = 500"
    by (simp_all add: archiveWorld_def sampleWorld_def)
  have session: "\<not> DialTLSFails archiveWorld" "\<not> LoginFails archiveWorld"
      "\<not> SelectFails archiveWorld"
    by (simp_all add: archiveWorld_def sampleWorld_def)
  have fetches: "\<forall>s e. snd (Fetch archiveWorld s e) = None"
    by (simp add: archiveWorld_def)
  have fresh: "scan_progress freshDB =
        Some \<lparr>LastProcessedUID = 0, TotalMessages = 0, ProcessedCount = 0\<rparr>" "faults freshDB = []"
    by (simp_all add: freshDB_def)
  have room: "(3::nat) \<le> 3" by simp
  have order: "\<forall>xs. set (rangeOrder archiveWorld xs) = set xs"
    by (simp add: archiveWorld_def sampleWorld_def)
  have rows: "storeAll (senders freshDB)
        (batchSenders archiveWorld 1 500 @ batchSenders archiveWorld 501 1000
           @ batchSenders archiveWorld 1001 1247) =
      [\<lparr>FullName = ''John Doe'', Email = ''john.doe@x.com''\<rparr>,
       \<lparr>FullName = CHR 0xC3 # CHR 0x89 # ''mile Zola'', Email = emileZola\<rparr>]"
    by code_simp
  obtain r where r: "scanEmailsBatch 3 \<lparr>BatchSize = 500\<rparr> archiveWorld freshDB = Some (Returned r)"
      "events r = [ProcessingBatch 1 500, ProcessingBatch 501 1000, ProcessingBatch 1001 1247,
                     ScanningCompleted]"
      "scan_progress (db r) =
            Some \<lparr>LastProcessedUID = 1247, TotalMessages = 1247, ProcessedCount = 1247\<rparr>"
      "senders (db r) =
          storeAll (senders freshDB)
            (batchSenders archiveWorld 1 500 @ batchSenders archiveWorld 501 1000
               @ batchSenders archiveWorld 1001 1247)"
    using three_batches_of_1247 [OF size session fetches fresh room] by blast
  have table: "senders (db r) =
            [\<lparr>FullName = ''John Doe'', Email = ''john.doe@x.com''\<rparr>,
             \<lparr>FullName = CHR 0xC3 # CHR 0x89 # ''mile Zola'', Email = emileZola\<rparr>]"
    using r(4) by (simp only: rows)
  then have addresses: "Email ` set (senders (db r)) = {''john.doe@x.com'', emileZola}"
    by simp
  have "\<exists>r. scanEmailsBatch 3 \<lparr>BatchSize = 500\<rparr> archiveWorld freshDB = Some (Returned r)
      \<and> events r = [ProcessingBatch 1 500, ProcessingBatch 501 1000, ProcessingBatch 1001 1247,
                     ScanningCompleted]
      \<and> scan_progress (db r) =
            Some \<lparr>LastProcessedUID = 1247, TotalMessages = 1247, ProcessedCount = 1247\<rparr>
      \<and> senders (db r) =
            [\<lparr>FullName = ''John Doe'', Email = ''john.doe@x.com''\<rparr>,
             \<lparr>FullName = CHR 0xC3 # CHR 0x89 # ''mile Zola'', Email = emileZola\<rparr>]
      \<and> Email ` set (senders (db r)) = {''john.doe@x.com'', emileZola}"
    using r(1-3) table addresses by blast
  then show ?thesis
    using size session fetches fresh room order by blast
qed

text \<open>
  Claim C1, evaluated on the code. The mailbox has 1247 messages, the batch width is 500, the
  checkpoint is zeroed and storage never fails; the fetch of batch 2 (501 to 1000) fails.
  After the second pass the stored checkpoint is at 500 and the third batch is processed, as
  the claim says. The third pass then stores 1247, and the next run, on a mailbox that now
  answers every fetch, finds everything processed and fetches nothing: the range 501 to 1000
  is not retried.
\<close>

theorem failed_batch_not_retried:
  "scan_progress (db (batchBody outageWorld 500 1247 501 (batchBody outageWorld 500 1247 1
       \<lparr>db = freshDB,
        progress = \<lparr>LastProcessedUID = 0, TotalMessages = 1247, ProcessedCount = 0\<rparr>,
        events = []\<rparr>))) =
     Some \<lparr>LastProcessedUID = 500, TotalMessages = 1247, ProcessedCount = 500\<rparr>
   \<and> scanEmailsBatch 3 \<lparr>BatchSize = 500\<rparr> outageWorld freshDB =
       Some (Returned
         \<lparr>db = \<lparr>senders = [\<lparr>FullName = ''John Doe'', Email = ''john.doe@x.com''\<rparr>],
                scan_progress =
                  Some \<lparr>LastProcessedUID = 1247, TotalMessages = 1247, ProcessedCount = 1247\<rparr>,
                faults = []\<rparr>,
          progress = \<lparr>LastProcessedUID = 1247, TotalMessages = 1247, ProcessedCount = 1247\<rparr>,
          events = [ProcessingBatch 1 500, ProcessingBatch 501 1000, BatchProcessingError,
                    ProcessingBatch 1001 1247, ScanningCompleted]\<rparr>)
   \<and> scanEmailsBatch 3 \<lparr>BatchSize = 500\<rparr> (sampleWorld 1247)
         \<lparr>senders = [\<lparr>FullName = ''John Doe'', Email = ''john.doe@x.com''\<rparr>],
          scan_progress =
            Some \<lparr>LastProcessedUID = 1247, TotalMessages = 1247, ProcessedCount = 1247\<rparr>,
          faults = []\<rparr> =
       Some (Returned
         \<lparr>db = \<lparr>senders = [\<lparr>FullName = ''John Doe'', Email = ''john.doe@x.com''\<rparr>],
                scan_progress =
                  Some \<lparr>LastProcessedUID = 1247, TotalMessages = 1247, ProcessedCount = 1247\<rparr>,
                faults = []\<rparr>,
          progress = \<lparr>LastProcessedUID = 1247, TotalMessages = 1247, ProcessedCount = 1247\<rparr>,
          events = [AllAlreadyProcessed]\<rparr>)"
  by code_simp

section \<open>Termination\<close>

lemma batchLoop_terminates:
  "0 < unat b \<Longrightarrow> unat n + unat b < 2 ^ 32 \<Longrightarrow> unat n + 1 - unat c \<le> fuel \<Longrightarrow>
   \<exists>r'. batchLoop fuel w b n c r = Some r'"
proof (induction fuel arbitrary: c r)
  case 0
  then have "\<not> c \<le> n" by (simp add: word_le_nat_alt)
  then show ?case by (simp add: batchLoop_exit)
next
  case (Suc fuel)
  show ?case
  proof (cases "c \<le> n")
    case True
    then have "unat c + unat b < 2 ^ 32" using Suc.prems(2) by (simp add: word_le_nat_alt)
    then have "unat (c + b) = unat c + unat b" by (simp add: unat_add_lem [THEN iffD1])
    then have "unat n + 1 - unat (c + b) \<le> fuel" using Suc.prems(1,3) by simp
    then show ?thesis
      using True Suc.IH [OF Suc.prems(1,2), of "c + b"] by (simp add: batchLoop_Suc)
  next
    case False
    then show ?thesis by (simp add: batchLoop_exit)
  qed
qed

lemma scanEmailsBatch_ends:
  assumes "0 < unat (word_of_int (BatchSize config) :: u32)"
    and "unat (Messages w) + unat (word_of_int (BatchSize config) :: u32) < 2 ^ 32"
  shows "\<exists>res. scanEmailsBatch (Suc (unat (Messages w))) config w d = Some res"
proof -
  obtain l d1 where l: "loadProgress d = (l, d1)" by (cases "loadProgress d")
  show ?thesis
  proof (cases l)
    case (Inl e)
    then show ?thesis using l by (simp add: scanEmailsBatch_def)
  next
    case (Inr p)
    have "\<exists>r'. batchLoop (Suc (unat (Messages w))) w (word_of_int (BatchSize config))
        (Messages w) (LastProcessedUID p + 1)
        \<lparr>db = d1, progress = p\<lparr>TotalMessages := Messages w\<rparr>, events = []\<rparr> = Some r'"
      by (rule batchLoop_terminates [OF assms]) simp
    then obtain r' where "batchLoop (Suc (unat (Messages w))) w (word_of_int (BatchSize config))
        (Messages w) (LastProcessedUID p + 1)
        \<lparr>db = d1, progress = p\<lparr>TotalMessages := Messages w\<rparr>, events = []\<rparr> = Some r'"
      by blast
    then show ?thesis using l Inr by (simp add: scanEmailsBatch_def Let_def)
  qed
qed

section \<open>What a run reports\<close>

lemma loadProgress_db: "snd (loadProgress d) = snd (nextFault d)"
  by (simp add: loadProgress_def split_beta split: option.split)

lemma loadProgress_row: "fst (loadProgress d) = Inr p \<Longrightarrow> scan_progress d = Some p"
  by (rule nextFault_cases [of d]) (auto simp: loadProgress_def split: if_splits option.splits)

lemma loadProgress_quiet:
  "faults d = [] \<Longrightarrow> scan_progress d = Some p \<Longrightarrow> loadProgress d = (Inr p, d)"
  by (simp add: loadProgress_def nextFault_quiet)

lemma scan_returns_after_select:
  assumes "fst (loadProgress d) = Inr p" and "\<not> DialTLSFails w" and "\<not> LoginFails w"
    and "\<not> SelectFails w" and "scanEmailsBatch fuel config w d = Some res"
  shows "\<exists>r. res = Returned r"
proof -
  obtain d1 where "loadProgress d = (Inr p, d1)"
    using assms(1) by (cases "loadProgress d") simp
  then show ?thesis
    using assms(2-5)
    by (auto simp: scanEmailsBatch_def Let_def split: if_splits option.splits)
qed

lemma idle_run:
  assumes "fst (loadProgress d) = Inr p" and "\<not> DialTLSFails w" and "\<not> LoginFails w"
    and "\<not> SelectFails w" and "Messages w = 0 \<or> LastProcessedUID p + 1 > Messages w"
  shows "\<exists>ev. scanEmailsBatch fuel config w d =
           Some (Returned \<lparr>db = snd (nextFault d), progress = p\<lparr>TotalMessages := Messages w\<rparr>,
                          events = [ev]\<rparr>)
         \<and> (ev = NoMessagesFound \<or> ev = AllAlreadyProcessed)"
proof -
  have "loadProgress d = (Inr p, snd (nextFault d))"
    using assms(1) loadProgress_db [of d] by (metis prod.collapse)
  then show ?thesis
    using assms(2-5) by (auto simp: scanEmailsBatch_def Let_def)
qed

text \<open>A failing checkpoint update after a fetched batch.\<close>

lemma batchBody_save_fails:
  assumes "processBatch w c (batchEnd b n c) = Inr xs"
    and "filterNew (db r) xs = (new, d1)"
    and "(if new \<noteq> [] then saveSendersBatch d1 new else (None, d1)) = (saveErr, d2)"
    and "fst (nextFault d2)"
  shows "last (events (batchBody w b n c r)) = ProgressSaveError"
    and "scan_progress (db (batchBody w b n c r)) = scan_progress (db r)"
    and "LastProcessedUID (progress (batchBody w b n c r)) = batchEnd b n c"
proof -
  let ?p = "(progress r)\<lparr>LastProcessedUID := batchEnd b n c, ProcessedCount := batchEnd b n c\<rparr>"
  have save: "saveProgress d2 ?p = (Some StorageError, snd (nextFault d2))"
    using assms(4) by (simp add: saveProgress_def split_beta)
  have d1: "scan_progress d1 = scan_progress (db r)"
    using filterNew_scan_progress [of "db r" xs] assms(2) by simp
  have "d2 = snd (if new \<noteq> [] then saveSendersBatch d1 new else (None, d1))"
    using assms(3) by simp
  then have "scan_progress d2 = scan_progress d1"
    by (cases "new = []") simp_all
  then have d2: "scan_progress d2 = scan_progress (db r)"
    using d1 by simp
  have body: "batchBody w b n c r =
      \<lparr>db = snd (nextFault d2), progress = ?p,
       events = (if saveErr \<noteq> None
                 then events r @ [ProcessingBatch c (batchEnd b n c)] @ [BatchSaveError]
                 else events r @ [ProcessingBatch c (batchEnd b n c)]) @ [ProgressSaveError]\<rparr>"
    using assms(1-3) save by (simp add: batchBody_def Let_def)
  show "last (events (batchBody w b n c r)) = ProgressSaveError" by (simp add: body)
  show "scan_progress (db (batchBody w b n c r)) = scan_progress (db r)" by (simp add: body d2)
  show "LastProcessedUID (progress (batchBody w b n c r)) = batchEnd b n c" by (simp add: body)
qed

text \<open>The batches of a loop, whatever fails in its passes.\<close>

lemma batchesOf_append: "batchesOf (xs @ ys) = batchesOf xs @ batchesOf ys"
  by (simp add: batchesOf_def)

lemma batchBody_batches:
  "batchesOf (events (batchBody w b n c r)) = batchesOf (events r) @ [(c, batchEnd b n c)]"
  by (cases "processBatch w c (batchEnd b n c)")
    (simp_all add: batchBody_def Let_def split_beta batchesOf_def)

lemma batchLoop_batches:
  "batchLoop fuel w b n c r = Some r' \<Longrightarrow>
   batchesOf (events r') = batchesOf (events r) @ batchRanges fuel b n c"
proof (induction fuel arbitrary: c r)
  case 0
  then show ?case by (cases "c \<le> n") (simp_all add: batchLoop_0 batchLoop_exit)
next
  case (Suc fuel)
  show ?case
  proof (cases "c \<le> n")
    case True
    then have "batchLoop fuel w b n (c + b) (batchBody w b n c r) = Some r'"
      using Suc.prems by (simp add: batchLoop_Suc)
    then show ?thesis
      using True Suc.IH by (simp add: batchBody_batches)
  next
    case False
    then show ?thesis using Suc.prems by (simp add: batchLoop_exit)
  qed
qed

lemma run_batches:
  assumes "scanEmailsBatch fuel config w d = Some (Returned r)"
    and "fst (loadProgress d) = Inr p"
    and "Messages w \<noteq> 0" and "LastProcessedUID p + 1 \<le> Messages w"
  shows "batchesOf (events r) =
     batchRanges fuel (word_of_int (BatchSize config)) (Messages w) (LastProcessedUID p + 1)"
  using assms(1)
proof (cases rule: scanEmailsBatch_cases)
  case (failed e)
  then show ?thesis by simp
next
  case (idle p' ev)
  then show ?thesis using assms(2-4) by (auto simp: not_less [symmetric])
next
  case (looped p' r')
  have "p' = p" using looped(1) assms(2) by simp
  then show ?thesis
    using batchLoop_batches [OF looped(4)] looped(5)
    by (simp add: batchesOf_def)
qed

text \<open>
  Claim C3 as stated fails: the sample mailbox has 1247 messages, the checkpoint updates after
  the second and the third batch fail, and the run returns success; the failures are log
  lines, and the stored checkpoint still stands at the end of the first batch.
\<close>

theorem checkpoint_save_error_counterexample:
  "scanEmailsBatch 3 \<lparr>BatchSize = 500\<rparr> (sampleWorld 1247) lateFailingDB =
     Some (Returned
       \<lparr>db = \<lparr>senders = [\<lparr>FullName = ''John Doe'', Email = ''john.doe@x.com''\<rparr>],
              scan_progress =
                Some \<lparr>LastProcessedUID = 500, TotalMessages = 1247, ProcessedCount = 500\<rparr>,
              faults = []\<rparr>,
        progress = \<lparr>LastProcessedUID = 1247, TotalMessages = 1247, ProcessedCount = 1247\<rparr>,
        events = [ProcessingBatch 1 500, ProcessingBatch 501 1000, ProgressSaveError,
                  ProcessingBatch 1001 1247, ProgressSaveError, ScanningCompleted]\<rparr>)"
  by code_simp

text \<open>
  Claim C3, amended. When the checkpoint update after a fetched batch fails, the pass ends
  with the log line of the error, the stored checkpoint is the one from before the pass and
  the checkpoint in memory is advanced to the end of the batch. The loop goes on: it
  continues with the next batch from the state that pass left, and the batches of a run that
  ends are all those from the resume point to the mailbox size, whatever failed on the way.
  The error is not returned: once the checkpoint is loaded and the mailbox selected, a run
  that ends returns success under every fault script; and it does end, as long as the batch
  width is positive and the mailbox size plus the width stays below \<open>2 ^ 32\<close>.
\<close>

theorem checkpoint_save_error_only_logged:
  "(fst (loadProgress d) = Inr p \<and> \<not> DialTLSFails w \<and> \<not> LoginFails w \<and> \<not> SelectFails w
      \<and> scanEmailsBatch fuel config w d = Some res \<longrightarrow> (\<exists>r. res = Returned r))
   \<and> (0 < unat (word_of_int (BatchSize config) :: u32)
      \<and> unat (Messages w) + unat (word_of_int (BatchSize config) :: u32) < 2 ^ 32 \<longrightarrow>
        (\<exists>res. scanEmailsBatch (Suc (unat (Messages w))) config w d = Some res))
   \<and> (processBatch w c (batchEnd b n c) = Inr xs
      \<and> filterNew (db r) xs = (new, d1)
      \<and> (if new \<noteq> [] then saveSendersBatch d1 new else (None, d1)) = (saveErr, d2)
      \<and> fst (nextFault d2) \<longrightarrow>
        last (events (batchBody w b n c r)) = ProgressSaveError
        \<and> scan_progress (db (batchBody w b n c r)) = scan_progress (db r)
        \<and> LastProcessedUID (progress (batchBody w b n c r)) = batchEnd b n c
        \<and> (c \<le> n \<longrightarrow>
             batchLoop (Suc passes) w b n c r =
               batchLoop passes w b n (c + b) (batchBody w b n c r)))
   \<and> (scanEmailsBatch fuel config w d = Some (Returned r') \<and> fst (loadProgress d) = Inr p
      \<and> Messages w \<noteq> 0 \<and> LastProcessedUID p + 1 \<le> Messages w \<longrightarrow>
        batchesOf (events r') =
          batchRanges fuel (word_of_int (BatchSize config)) (Messages w)
            (LastProcessedUID p + 1))"
  using scan_returns_after_select [of d p w fuel config res]
    scanEmailsBatch_ends [of config w d]
    batchBody_save_fails [of w c b n xs r new d1 saveErr d2]
    batchLoop_Suc [of c n passes w b r]
    run_batches [of fuel config w d r' p]
  by blast

theorem checkpoint_save_error_only_logged_witness:
  "fst (loadProgress failingSaveDB) =
       Inr \<lparr>LastProcessedUID = 0, TotalMessages = 0, ProcessedCount = 0\<rparr>
   \<and> \<not> DialTLSFails (sampleWorld 1247) \<and> \<not> LoginFails (sampleWorld 1247)
   \<and> \<not> SelectFails (sampleWorld 1247)
   \<and> scanEmailsBatch 3 \<lparr>BatchSize = 500\<rparr> (sampleWorld 1247) failingSaveDB =
       Some (Returned
         \<lparr>db = doneDB,
          progress = \<lparr>LastProcessedUID = 1247, TotalMessages = 1247, ProcessedCount = 1247\<rparr>,
          events = [ProcessingBatch 1 500, ProgressSaveError, ProcessingBatch 501 1000,
                    ProcessingBatch 1001 1247, ScanningCompleted]\<rparr>)
   \<and> 0 < unat (word_of_int (BatchSize \<lparr>BatchSize = 500\<rparr>) :: u32)
   \<and> unat (Messages (sampleWorld 1247))
        + unat (word_of_int (BatchSize \<lparr>BatchSize = 500\<rparr>) :: u32) < 2 ^ 32
   \<and> (\<exists>res. scanEmailsBatch (Suc (unat (Messages (sampleWorld 1247)))) \<lparr>BatchSize = 500\<rparr>
          (sampleWorld 1247) failingSaveDB = Some res)
   \<and> processBatch (sampleWorld 1247) 1 (batchEnd 500 1247 1) =
       Inr [\<lparr>FullName = ''John Doe'', Email = ''john.doe@x.com''\<rparr>]
   \<and> filterNew (freshDB\<lparr>faults := [False, False, False, False, False, True]\<rparr>)
        [\<lparr>FullName = ''John Doe'', Email = ''john.doe@x.com''\<rparr>] =
       ([\<lparr>FullName = ''John Doe'', Email = ''john.doe@x.com''\<rparr>],
        freshDB\<lparr>faults := [False, False, False, False, True]\<rparr>)
   \<and> saveSendersBatch (freshDB\<lparr>faults := [False, False, False, False, True]\<rparr>)
        [\<lparr>FullName = ''John Doe'', Email = ''john.doe@x.com''\<rparr>] =
       (None, freshDB\<lparr>senders := [\<lparr>FullName = ''John Doe'', Email = ''john.doe@x.com''\<rparr>],
                      faults := [True]\<rparr>)
   \<and> fst (nextFault (freshDB\<lparr>senders := [\<lparr>FullName = ''John Doe'', Email = ''john.doe@x.com''\<rparr>],
                             faults := [True]\<rparr>))
   \<and> last (events (batchBody (sampleWorld 1247) 500 1247 1
        \<lparr>db = freshDB\<lparr>faults := [False, False, False, False, False, True]\<rparr>,
         progress = \<lparr>LastProcessedUID = 0, TotalMessages = 1247, ProcessedCount = 0\<rparr>,
         events = []\<rparr>)) = ProgressSaveError
   \<and> scan_progress (db (batchBody (sampleWorld 1247) 500 1247 1
        \<lparr>db = freshDB\<lparr>faults := [False, False, False, False, False, True]\<rparr>,
         progress = \<lparr>LastProcessedUID = 0, TotalMessages = 1247, ProcessedCount = 0\<rparr>,
         events = []\<rparr>)) =
       Some \<lparr>LastProcessedUID = 0, TotalMessages = 0, ProcessedCount = 0\<rparr>
   \<and> (1 :: u32) \<le> 1247
   \<and> batchLoop (Suc 2) (sampleWorld 1247) 500 1247 1
        \<lparr>db = freshDB\<lparr>faults := [False, False, False, False, False, True]\<rparr>,
         progress = \<lparr>LastProcessedUID = 0, TotalMessages = 1247, ProcessedCount = 0\<rparr>,
         events = []\<rparr> =
       Some \<lparr>db = doneDB,
             progress = \<lparr>LastProcessedUID = 1247, TotalMessages = 1247, ProcessedCount = 1247\<rparr>,
             events = [ProcessingBatch 1 500, ProgressSaveError, ProcessingBatch 501 1000,
                       ProcessingBatch 1001 1247]\<rparr>
   \<and> Messages (sampleWorld 1247) \<noteq> 0
   \<and> (0 :: u32) + 1 \<le> Messages (sampleWorld 1247)
   \<and> batchesOf [ProcessingBatch 1 500, ProgressSaveError, ProcessingBatch 501 1000,
                 ProcessingBatch 1001 1247, ScanningCompleted] =
       [(1, 500), (501, 1000), (1001, 1247)]"
proof -
  let ?w = "sampleWorld 1247"
  let ?cfg = "\<lparr>BatchSize = 500\<rparr>"
  let ?zero = "\<lparr>LastProcessedUID = 0, TotalMessages = 0, ProcessedCount = 0\<rparr>"
  let ?jd = "\<lparr>FullName = ''John Doe'', Email = ''john.doe@x.com''\<rparr>"
  let ?r0 = "\<lparr>db = freshDB\<lparr>faults := [False, False, False, False, False, True]\<rparr>,
         progress = \<lparr>LastProcessedUID = 0, TotalMessages = 1247, ProcessedCount = 0\<rparr>,
         events = []\<rparr>"
  let ?d1 = "freshDB\<lparr>faults := [False, False, False, False, True]\<rparr>"
  let ?d2 = "freshDB\<lparr>senders := [?jd], faults := [True]\<rparr>"
  let ?R = "\<lparr>db = doneDB,
          progress = \<lparr>LastProcessedUID = 1247, TotalMessages = 1247, ProcessedCount = 1247\<rparr>,
          events = [ProcessingBatch 1 500, ProgressSaveError, ProcessingBatch 501 1000,
                    ProcessingBatch 1001 1247, ScanningCompleted]\<rparr>"
  let ?L = "\<lparr>db = doneDB,
             progress = \<lparr>LastProcessedUID = 1247, TotalMessages = 1247, ProcessedCount = 1247\<rparr>,
             events = [ProcessingBatch 1 500, ProgressSaveError, ProcessingBatch 501 1000,
                       ProcessingBatch 1001 1247]\<rparr>"
  have load: "fst (loadProgress failingSaveDB) = Inr ?zero"
    by code_simp
  have session: "\<not> DialTLSFails ?w" "\<not> LoginFails ?w" "\<not> SelectFails ?w"
    by (simp_all add: sampleWorld_def)
  have run: "scanEmailsBatch 3 ?cfg ?w failingSaveDB = Some (Returned ?R)"
    by code_simp
  have size: "Messages ?w = 1247" by (simp add: sampleWorld_def)
  have width: "0 < unat (word_of_int (BatchSize ?cfg) :: u32)"
      "unat (Messages ?w) + unat (word_of_int (BatchSize ?cfg) :: u32) < 2 ^ 32"
    by (simp_all add: size)
  have fetched: "processBatch ?w 1 (batchEnd 500 1247 1) = Inr [?jd]"
    by code_simp
  have filtered: "filterNew (db ?r0) [?jd] = ([?jd], ?d1)"
    by code_simp
  have saved: "(if [?jd] \<noteq> [] then saveSendersBatch ?d1 [?jd] else (None, ?d1)) = (None, ?d2)"
    by code_simp
  have failing: "fst (nextFault ?d2)"
    by code_simp
  have zero: "scan_progress (db ?r0) = Some ?zero"
    by (simp add: freshDB_def)
  have first: "(1 :: u32) \<le> 1247" by simp
  have rest: "batchLoop 2 ?w 500 1247 (1 + 500) (batchBody ?w 500 1247 1 ?r0) = Some ?L"
    by code_simp
  have resume: "Messages ?w \<noteq> 0" "(0 :: u32) + 1 \<le> Messages ?w"
    by (simp_all add: size)
  note inst = checkpoint_save_error_only_logged [where d = failingSaveDB and p = ?zero
      and w = ?w and fuel = 3 and config = ?cfg and res = "Returned ?R" and r' = ?R
      and c = 1 and b = 500 and n = 1247 and xs = "[?jd]" and r = ?r0 and new = "[?jd]"
      and ?d1.0 = ?d1 and saveErr = None and ?d2.0 = ?d2 and passes = 2]
  have ends: "\<exists>res. scanEmailsBatch (Suc (unat (Messages ?w))) ?cfg ?w failingSaveDB = Some res"
    using inst width by blast
  have pass: "last (events (batchBody ?w 500 1247 1 ?r0)) = ProgressSaveError"
      "scan_progress (db (batchBody ?w 500 1247 1 ?r0)) = scan_progress (db ?r0)"
      "batchLoop (Suc 2) ?w 500 1247 1 ?r0 =
         batchLoop 2 ?w 500 1247 (1 + 500) (batchBody ?w 500 1247 1 ?r0)"
    using inst fetched filtered saved failing first by blast+
  have goes_on: "batchLoop (Suc 2) ?w 500 1247 1 ?r0 = Some ?L"
    using pass(3) rest by simp
  have "batchesOf (events ?R) =
      batchRanges 3 (word_of_int (BatchSize ?cfg)) (Messages ?w) (LastProcessedUID ?zero + 1)"
    using inst run load resume by simp
  moreover have "batchRanges 3 (word_of_int (BatchSize ?cfg)) (Messages ?w)
      (LastProcessedUID ?zero + 1) = [(1, 500), (501, 1000), (1001, 1247)]"
    by code_simp
  ultimately have batches: "batchesOf [ProcessingBatch 1 500, ProgressSaveError,
      ProcessingBatch 501 1000, ProcessingBatch 1001 1247, ScanningCompleted] =
       [(1, 500), (501, 1000), (1001, 1247)]"
    by simp
  have stale: "scan_progress (db (batchBody ?w 500 1247 1 ?r0)) = Some ?zero"
    using pass(2) zero by simp
  have saved': "saveSendersBatch ?d1 [?jd] = (None, ?d2)"
    using saved by simp
  have filtered': "filterNew (freshDB\<lparr>faults := [False, False, False, False, False, True]\<rparr>)
      [?jd] = ([?jd], ?d1)"
    using filtered by simp
  show ?thesis
    using load session run width ends fetched filtered' saved' failing pass(1) stale first
      goes_on resume batches
    by blast
qed

section \<open>The stored total\<close>

lemma saveProgress_stored:
  "scan_progress (snd (saveProgress d p)) = scan_progress d
   \<or> scan_progress (snd (saveProgress d p)) = Some p"
  by (rule nextFault_cases [of d]) (auto simp: saveProgress_def split: option.split)

lemma batchBody_total [simp]:
  "TotalMessages (progress (batchBody w b n c r)) = TotalMessages (progress r)"
  by (cases "processBatch w c (batchEnd b n c)") (simp_all add: batchBody_def Let_def split_beta)

lemma batchBody_stored:
  "scan_progress (db (batchBody w b n c r)) = scan_progress (db r)
   \<or> scan_progress (db (batchBody w b n c r)) = Some (progress (batchBody w b n c r))"
proof (cases "processBatch w c (batchEnd b n c)")
  case (Inl e)
  then show ?thesis
    using saveProgress_stored [of "db r" "(progress r)\<lparr>LastProcessedUID := c - 1\<rparr>"]
    by (simp add: batchBody_def Let_def split_beta)
next
  case (Inr xs)
  let ?d1 = "snd (filterNew (db r) xs)"
  let ?new = "fst (filterNew (db r) xs)"
  let ?d2 = "snd (if ?new \<noteq> [] then saveSendersBatch ?d1 ?new else (None, ?d1))"
  let ?p = "(progress r)\<lparr>LastProcessedUID := batchEnd b n c, ProcessedCount := batchEnd b n c\<rparr>"
  have "scan_progress ?d2 = scan_progress (db r)" by simp
  then show ?thesis
    using Inr saveProgress_stored [of ?d2 ?p]
    by (simp add: batchBody_def Let_def split_beta)
qed

lemma batchLoop_total:
  assumes "batchLoop fuel w b n c r = Some r'" and "TotalMessages (progress r) = t"
    and "scan_progress (db r) = s0 \<or> (\<exists>q. scan_progress (db r) = Some q \<and> TotalMessages q = t)"
  shows "TotalMessages (progress r') = t
    \<and> (scan_progress (db r') = s0 \<or> (\<exists>q. scan_progress (db r') = Some q \<and> TotalMessages q = t))"
  using assms
proof (induction fuel arbitrary: c r)
  case 0
  then show ?case by (cases "c \<le> n") (simp_all add: batchLoop_0 batchLoop_exit)
next
  case (Suc fuel)
  show ?case
  proof (cases "c \<le> n")
    case True
    let ?r1 = "batchBody w b n c r"
    have loop: "batchLoop fuel w b n (c + b) ?r1 = Some r'"
      using True Suc.prems(1) by (simp add: batchLoop_Suc)
    have t: "TotalMessages (progress ?r1) = t" using Suc.prems(2) by simp
    have "scan_progress (db ?r1) = s0 \<or> (\<exists>q. scan_progress (db ?r1) = Some q \<and> TotalMessages q = t)"
      using batchBody_stored [of w b n c r] Suc.prems(3) t by auto
    then show ?thesis using Suc.IH [OF loop t] by blast
  next
    case False
    then show ?thesis using Suc.prems by (simp add: batchLoop_exit)
  qed
qed

lemma run_total:
  assumes "scanEmailsBatch fuel config w d = Some (Returned r)"
  shows "TotalMessages (progress r) = Messages w"
    and "scan_progress (db r) = scan_progress d
         \<or> (\<exists>q. scan_progress (db r) = Some q \<and> TotalMessages q = Messages w)"
proof -
  have "TotalMessages (progress r) = Messages w
     \<and> (scan_progress (db r) = scan_progress d
         \<or> (\<exists>q. scan_progress (db r) = Some q \<and> TotalMessages q = Messages w))"
    using assms
  proof (cases rule: scanEmailsBatch_cases)
    case (failed e)
    then show ?thesis by simp
  next
    case (idle p ev)
    then show ?thesis by (simp add: loadProgress_db)
  next
    case (looped p r')
    have "TotalMessages (progress r') = Messages w
      \<and> (scan_progress (db r') = scan_progress d
          \<or> (\<exists>q. scan_progress (db r') = Some q \<and> TotalMessages q = Messages w))"
      by (rule batchLoop_total [OF looped(4)]) (simp_all add: loadProgress_db)
    then show ?thesis using looped(5) by simp
  qed
  then show "TotalMessages (progress r) = Messages w"
    and "scan_progress (db r) = scan_progress d
         \<or> (\<exists>q. scan_progress (db r) = Some q \<and> TotalMessages q = Messages w)"
    by simp_all
qed



section \<open>A run after a run\<close>

lemma last_batch_end:
  assumes "c \<le> n" and "\<not> c + b \<le> n" and "unat n + unat b < 2 ^ 32"
  shows "batchEnd b n c = n" and "0 < unat b"
proof -
  have cn: "unat c \<le> unat n" using assms(1) by (simp add: word_le_nat_alt)
  then have "unat c + unat b < 2 ^ 32" using assms(3) by simp
  then have sum: "unat (c + b) = unat c + unat b" by (simp add: unat_add_lem [THEN iffD1])
  have over: "unat n < unat c + unat b" using assms(2) sum by (simp add: word_le_nat_alt)
  then show pos: "0 < unat b" using cn by simp
  have "c + b \<noteq> 0" using over sum by (metis not_less0 unat_0)
  then have "unat (c + b - 1) = unat c + unat b - 1"
    using sum by (simp add: unat_minus_one)
  then have "unat n \<le> unat (c + b - 1)" using over by simp
  then have "n \<le> c + b - 1" by (simp add: word_le_nat_alt)
  then show "batchEnd b n c = n" by (auto simp: batchEnd_def)
qed

lemma batchLoop_quiet:
  assumes "batchLoop fuel w b n c r = Some r'" and "c \<le> n"
    and "faults (db r) = []" and "scan_progress (db r) \<noteq> None"
    and "\<forall>s e. snd (Fetch w s e) = None" and "unat n + unat b < 2 ^ 32"
  shows "faults (db r') = [] \<and> 0 < unat b
    \<and> (\<exists>q. scan_progress (db r') = Some q \<and> LastProcessedUID q = n)"
  using assms(1-4)
proof (induction fuel arbitrary: c r)
  case 0
  then show ?case by (simp add: batchLoop_0)
next
  case (Suc fuel)
  let ?r1 = "batchBody w b n c r"
  have f: "snd (Fetch w c (batchEnd b n c)) = None" using assms(5) by simp
  have loop: "batchLoop fuel w b n (c + b) ?r1 = Some r'"
    using Suc.prems(1,2) by (simp add: batchLoop_Suc)
  have q1: "faults (db ?r1) = []"
    using batchBody_quiet(1) [OF Suc.prems(3) f] .
  have s1: "scan_progress (db ?r1) =
      Some ((progress r)\<lparr>LastProcessedUID := batchEnd b n c, ProcessedCount := batchEnd b n c\<rparr>)"
    using batchBody_quiet(3) [OF Suc.prems(3) f] Suc.prems(4) by auto
  show ?case
  proof (cases "c + b \<le> n")
    case True
    show ?thesis
      by (rule Suc.IH [OF loop True q1]) (simp add: s1)
  next
    case False
    then have "r' = ?r1" using loop by (simp add: batchLoop_exit)
    then show ?thesis
      using q1 s1 last_batch_end [OF Suc.prems(2) False assms(6)] by simp
  qed
qed

lemma rerun_after_quiet_run:
  assumes "faults d = []" and "\<forall>s e. snd (Fetch w s e) = None"
    and "unat (Messages w) + unat (word_of_int (BatchSize config) :: u32) < 2 ^ 32"
    and "scanEmailsBatch fuel config w d = Some (Returned r1)"
  shows "\<exists>r2. scanEmailsBatch fuel' config w (db r1) = Some (Returned r2) \<and> db r2 = db r1
    \<and> (events r2 = [NoMessagesFound] \<or> events r2 = [AllAlreadyProcessed])"
proof -
  have ok: "\<not> DialTLSFails w" "\<not> LoginFails w" "\<not> SelectFails w"
    using assms(4) by (auto simp: scanEmailsBatch_def split: prod.splits sum.splits if_splits)
  have same: "snd (nextFault d) = d" using assms(1) by (simp add: nextFault_quiet)
  from assms(4) show ?thesis
  proof (cases rule: scanEmailsBatch_cases)
    case (failed e)
    then show ?thesis by simp
  next
    case (idle p ev)
    then have d: "db r1 = d" by (simp add: loadProgress_db same)
    show ?thesis
      using idle_run [OF idle(1) ok idle(3), of fuel' config] d same by auto
  next
    case (looped p r')
    let ?r0 = "\<lparr>db = snd (loadProgress d), progress = p\<lparr>TotalMessages := Messages w\<rparr>, events = []\<rparr>"
    have row: "scan_progress d = Some p"
      using looped(1) by (rule loadProgress_row)
    have q: "faults (db r') = [] \<and> 0 < unat (word_of_int (BatchSize config) :: u32)
      \<and> (\<exists>q. scan_progress (db r') = Some q \<and> LastProcessedUID q = Messages w)"
      by (rule batchLoop_quiet [OF looped(4) looped(3) _ _ assms(2) assms(3)])
        (simp_all add: loadProgress_db same assms(1) row)
    then obtain q where stored: "scan_progress (db r') = Some q" "LastProcessedUID q = Messages w"
      by blast
    have "unat (Messages w) + unat (1 :: u32) < 2 ^ 32" using q assms(3) by simp
    then have "unat (Messages w + 1) = unat (Messages w) + 1"
      by (simp add: unat_add_lem [THEN iffD1])
    then have beyond: "LastProcessedUID q + 1 > Messages w"
      using stored(2) by (simp add: word_less_nat_alt)
    have load: "fst (loadProgress (db r')) = Inr q"
      using q stored(1) by (simp add: loadProgress_quiet)
    have "snd (nextFault (db r')) = db r'" using q by (simp add: nextFault_quiet)
    then show ?thesis
      using idle_run [OF load ok, of fuel' config] beyond looped(5) by auto
  qed
qed

text \<open>One pass without storage faults whose fetch fails.\<close>

lemma batchBody_fetch_error_quiet:
  assumes "snd (Fetch w c (batchEnd b n c)) = Some err" and "faults (db r) = []"
    and "scan_progress (db r) \<noteq> None"
  shows "batchBody w b n c r =
      \<lparr>db = (db r)\<lparr>scan_progress := Some ((progress r)\<lparr>LastProcessedUID := c - 1\<rparr>)\<rparr>,
       progress = (progress r)\<lparr>LastProcessedUID := c - 1\<rparr>,
       events = events r @ [ProcessingBatch c (batchEnd b n c), BatchProcessingError]\<rparr>"
  using assms(3) batchBody_fetch_error [OF assms(1), of r]
  by (auto simp: saveProgress_quiet [OF assms(2)])

text \<open>Where the stored checkpoint stands after a loop without storage faults: at the mailbox
  size, or just before a last batch whose fetch failed.\<close>

lemma batchLoop_storage_quiet:
  assumes "batchLoop fuel w b n c r = Some r'" and "c \<le> n"
    and "faults (db r) = []" and "scan_progress (db r) \<noteq> None"
    and "TotalMessages (progress r) = n" and "unat n + unat b < 2 ^ 32"
  shows "faults (db r') = []
    \<and> (\<exists>q. scan_progress (db r') = Some q \<and> TotalMessages q = n
         \<and> (LastProcessedUID q = n \<and> 0 < unat b
            \<or> (\<exists>c'. c' \<le> n \<and> \<not> c' + b \<le> n \<and> LastProcessedUID q = c' - 1
                  \<and> snd (Fetch w c' (batchEnd b n c')) \<noteq> None)))"
  using assms(1-5)
proof (induction fuel arbitrary: c r)
  case 0
  then show ?case by (simp add: batchLoop_0)
next
  case (Suc fuel)
  let ?r1 = "batchBody w b n c r"
  have loop: "batchLoop fuel w b n (c + b) ?r1 = Some r'"
    using Suc.prems(1,2) by (simp add: batchLoop_Suc)
  have t1: "TotalMessages (progress ?r1) = n" using Suc.prems(5) by simp
  show ?case
  proof (cases "snd (Fetch w c (batchEnd b n c))")
    case None
    have q1: "faults (db ?r1) = []"
      using batchBody_quiet(1) [OF Suc.prems(3) None] .
    have s1: "scan_progress (db ?r1) =
        Some ((progress r)\<lparr>LastProcessedUID := batchEnd b n c, ProcessedCount := batchEnd b n c\<rparr>)"
      using batchBody_quiet(3) [OF Suc.prems(3) None] Suc.prems(4) by auto
    show ?thesis
    proof (cases "c + b \<le> n")
      case True
      show ?thesis
        by (rule Suc.IH [OF loop True q1 _ t1]) (simp add: s1)
    next
      case False
      then have "r' = ?r1" using loop by (simp add: batchLoop_exit)
      then show ?thesis
        using q1 s1 Suc.prems(5) last_batch_end [OF Suc.prems(2) False assms(6)] by simp
    qed
  next
    case (Some err)
    have body: "?r1 =
      \<lparr>db = (db r)\<lparr>scan_progress := Some ((progress r)\<lparr>LastProcessedUID := c - 1\<rparr>)\<rparr>,
       progress = (progress r)\<lparr>LastProcessedUID := c - 1\<rparr>,
       events = events r @ [ProcessingBatch c (batchEnd b n c), BatchProcessingError]\<rparr>"
      using Some Suc.prems(3,4) by (rule batchBody_fetch_error_quiet)
    have q1: "faults (db ?r1) = []" using Suc.prems(3) by (simp add: body)
    have s1: "scan_progress (db ?r1) = Some ((progress r)\<lparr>LastProcessedUID := c - 1\<rparr>)"
      by (simp add: body)
    show ?thesis
    proof (cases "c + b \<le> n")
      case True
      show ?thesis
        by (rule Suc.IH [OF loop True q1 _ t1]) (simp add: s1)
    next
      case False
      then have "r' = ?r1" using loop by (simp add: batchLoop_exit)
      moreover have "c \<le> n \<and> \<not> c + b \<le> n \<and> snd (Fetch w c (batchEnd b n c)) \<noteq> None"
        using Suc.prems(2) False Some by simp
      ultimately show ?thesis
        using q1 s1 Suc.prems(5) by auto
    qed
  qed
qed

text \<open>The run that starts just before a last batch whose fetch fails.\<close>

lemma run_on_failing_last_batch:
  assumes "faults d = []" and "scan_progress d = Some q" and "TotalMessages q = Messages w"
    and "LastProcessedUID q = c - 1" and "c \<le> Messages w"
    and "\<not> c + word_of_int (BatchSize config) \<le> Messages w"
    and "snd (Fetch w c (batchEnd (word_of_int (BatchSize config)) (Messages w) c)) \<noteq> None"
    and "\<not> DialTLSFails w" and "\<not> LoginFails w" and "\<not> SelectFails w" and "Messages w \<noteq> 0"
  shows "\<exists>r2. scanEmailsBatch (Suc fuel) config w d = Some (Returned r2) \<and> db r2 = d"
proof -
  let ?b = "word_of_int (BatchSize config) :: u32"
  let ?r0 = "\<lparr>db = d, progress = q, events = []\<rparr>"
  obtain err where err: "snd (Fetch w c (batchEnd ?b (Messages w) c)) = Some err"
    using assms(7) by blast
  have q: "q\<lparr>TotalMessages := Messages w\<rparr> = q" "q\<lparr>LastProcessedUID := c - 1\<rparr> = q"
    using assms(3,4) by simp_all
  have "d\<lparr>scan_progress := Some q\<rparr> = d" using assms(2) by simp
  then have body: "batchBody w ?b (Messages w) c ?r0 =
      \<lparr>db = d, progress = q,
       events = [ProcessingBatch c (batchEnd ?b (Messages w) c), BatchProcessingError]\<rparr>"
    using batchBody_fetch_error_quiet [OF err, of ?r0] assms(1,2) q by simp
  have loop: "batchLoop (Suc fuel) w ?b (Messages w) c ?r0 =
      Some (batchBody w ?b (Messages w) c ?r0)"
    using assms(5,6) by (simp add: batchLoop_Suc batchLoop_exit)
  have load: "loadProgress d = (Inr q, d)"
    using assms(1,2) by (rule loadProgress_quiet)
  have start: "LastProcessedUID q + 1 = c" using assms(4) by simp
  have "\<not> Messages w < c" using assms(5) by (simp add: not_less)
  then have "scanEmailsBatch (Suc fuel) config w d =
      Some (Returned ((batchBody w ?b (Messages w) c ?r0)
        \<lparr>events := events (batchBody w ?b (Messages w) c ?r0) @ [ScanningCompleted]\<rparr>))"
    using assms(8-11) load loop start q
    by (simp add: scanEmailsBatch_def Let_def)
  then show ?thesis by (simp add: body)
qed

lemma rerun_same_world:
  assumes "faults d = []"
    and "unat (Messages w) + unat (word_of_int (BatchSize config) :: u32) < 2 ^ 32"
    and "scanEmailsBatch fuel config w d = Some (Returned r1)"
  shows "\<exists>r2. scanEmailsBatch (Suc fuel') config w (db r1) = Some (Returned r2) \<and> db r2 = db r1"
proof -
  have ok: "\<not> DialTLSFails w" "\<not> LoginFails w" "\<not> SelectFails w"
    using assms(3) by (auto simp: scanEmailsBatch_def split: prod.splits sum.splits if_splits)
  have same: "snd (nextFault d) = d" using assms(1) by (simp add: nextFault_quiet)
  from assms(3) show ?thesis
  proof (cases rule: scanEmailsBatch_cases)
    case (failed e)
    then show ?thesis by simp
  next
    case (idle p ev)
    then have d: "db r1 = d" by (simp add: loadProgress_db same)
    show ?thesis
      using idle_run [OF idle(1) ok idle(3), of "Suc fuel'" config] d same by auto
  next
    case (looped p r')
    let ?b = "word_of_int (BatchSize config) :: u32"
    have row: "scan_progress d = Some p"
      using looped(1) by (rule loadProgress_row)
    have inv: "faults (db r') = []
      \<and> (\<exists>q. scan_progress (db r') = Some q \<and> TotalMessages q = Messages w
         \<and> (LastProcessedUID q = Messages w \<and> 0 < unat ?b
            \<or> (\<exists>c'. c' \<le> Messages w \<and> \<not> c' + ?b \<le> Messages w \<and> LastProcessedUID q = c' - 1
                  \<and> snd (Fetch w c' (batchEnd ?b (Messages w) c')) \<noteq> None)))"
      by (rule batchLoop_storage_quiet [OF looped(4) looped(3) _ _ _ assms(2)])
        (simp_all add: loadProgress_db same assms(1) row)
    then obtain q where quiet: "faults (db r') = []"
      and stored: "scan_progress (db r') = Some q" "TotalMessages q = Messages w"
      and pos: "LastProcessedUID q = Messages w \<and> 0 < unat ?b
            \<or> (\<exists>c'. c' \<le> Messages w \<and> \<not> c' + ?b \<le> Messages w \<and> LastProcessedUID q = c' - 1
                  \<and> snd (Fetch w c' (batchEnd ?b (Messages w) c')) \<noteq> None)"
      by blast
    have r1: "db r1 = db r'" using looped(5) by simp
    from pos show ?thesis
    proof
      assume full: "LastProcessedUID q = Messages w \<and> 0 < unat ?b"
      then have "unat (Messages w) + unat (1 :: u32) < 2 ^ 32" using assms(2) by simp
      then have "unat (Messages w + 1) = unat (Messages w) + 1"
        by (simp add: unat_add_lem [THEN iffD1])
      then have beyond: "Messages w = 0 \<or> LastProcessedUID q + 1 > Messages w"
        using full by (simp add: word_less_nat_alt)
      have load: "fst (loadProgress (db r')) = Inr q"
        using quiet stored(1) by (simp add: loadProgress_quiet)
      have "snd (nextFault (db r')) = db r'" using quiet by (simp add: nextFault_quiet)
      then show ?thesis
        using idle_run [OF load ok beyond, of "Suc fuel'" config] r1 by auto
    next
      assume "\<exists>c'. c' \<le> Messages w \<and> \<not> c' + ?b \<le> Messages w \<and> LastProcessedUID q = c' - 1
                  \<and> snd (Fetch w c' (batchEnd ?b (Messages w) c')) \<noteq> None"
      then obtain c' where c': "c' \<le> Messages w" "\<not> c' + ?b \<le> Messages w"
          "LastProcessedUID q = c' - 1" "snd (Fetch w c' (batchEnd ?b (Messages w) c')) \<noteq> None"
        by blast
      show ?thesis
        using run_on_failing_last_batch [OF quiet stored c'(3,1,2,4) ok looped(2), of fuel'] r1
        by simp
    qed
  qed
qed

text \<open>
  Claim C5. When the loaded checkpoint's \<open>LastProcessedUID + 1\<close> exceeds the mailbox size,
  the run returns success at once, with any room for passes: no batch is processed, and the
  table of senders and the stored checkpoint are as before. After a run that returned success
  without any fetch error or storage fault (the mailbox size plus the batch width below
  \<open>2 ^ 32\<close>), a second run on the same mailbox is such a run. And when only storage is
  faultless, a second run against the same mailbox, answering every fetch as it did before,
  returns success and leaves the database, senders and checkpoint, as the first run left it.
\<close>

theorem second_run_is_idle:
  "(fst (loadProgress d) = Inr p \<and> \<not> DialTLSFails w \<and> \<not> LoginFails w \<and> \<not> SelectFails w
      \<and> LastProcessedUID p + 1 > Messages w \<longrightarrow>
        (\<exists>ev. scanEmailsBatch fuel config w d =
                Some (Returned \<lparr>db = snd (nextFault d),
                                progress = p\<lparr>TotalMessages := Messages w\<rparr>, events = [ev]\<rparr>)
              \<and> (ev = NoMessagesFound \<or> ev = AllAlreadyProcessed))
        \<and> senders (snd (nextFault d)) = senders d
        \<and> scan_progress (snd (nextFault d)) = scan_progress d)
   \<and> (faults d = [] \<and> (\<forall>s e. snd (Fetch w s e) = None)
      \<and> unat (Messages w) + unat (word_of_int (BatchSize config) :: u32) < 2 ^ 32
      \<and> scanEmailsBatch fuel config w d = Some (Returned r1) \<longrightarrow>
        (\<exists>r2. scanEmailsBatch fuel' config w (db r1) = Some (Returned r2) \<and> db r2 = db r1
           \<and> (events r2 = [NoMessagesFound] \<or> events r2 = [AllAlreadyProcessed])))
   \<and> (faults d = []
      \<and> unat (Messages w) + unat (word_of_int (BatchSize config) :: u32) < 2 ^ 32
      \<and> scanEmailsBatch fuel config w d = Some (Returned r1) \<longrightarrow>
        (\<exists>r2. scanEmailsBatch (Suc fuel') config w (db r1) = Some (Returned r2)
           \<and> db r2 = db r1))"
proof -
  have fast: "fst (loadProgress d) = Inr p \<and> \<not> DialTLSFails w \<and> \<not> LoginFails w \<and> \<not> SelectFails w
      \<and> LastProcessedUID p + 1 > Messages w \<longrightarrow>
        (\<exists>ev. scanEmailsBatch fuel config w d =
                Some (Returned \<lparr>db = snd (nextFault d),
                                progress = p\<lparr>TotalMessages := Messages w\<rparr>, events = [ev]\<rparr>)
              \<and> (ev = NoMessagesFound \<or> ev = AllAlreadyProcessed))
        \<and> senders (snd (nextFault d)) = senders d
        \<and> scan_progress (snd (nextFault d)) = scan_progress d"
    using idle_run [of d p w fuel config] by simp
  show ?thesis
    using fast rerun_after_quiet_run [of d w config fuel r1 fuel']
      rerun_same_world [of d w config fuel r1 fuel']
    by blast
qed

theorem second_run_is_idle_witness:
  "fst (loadProgress doneDB) =
       Inr \<lparr>LastProcessedUID = 1247, TotalMessages = 1247, ProcessedCount = 1247\<rparr>
   \<and> \<not> DialTLSFails (sampleWorld 1247) \<and> \<not> LoginFails (sampleWorld 1247)
   \<and> \<not> SelectFails (sampleWorld 1247)
   \<and> (1247 :: u32) + 1 > Messages (sampleWorld 1247)
   \<and> (\<exists>ev. scanEmailsBatch 0 \<lparr>BatchSize = 500\<rparr> (sampleWorld 1247) doneDB =
            Some (Returned \<lparr>db = snd (nextFault doneDB),
                progress = \<lparr>LastProcessedUID = 1247, TotalMessages = 1247, ProcessedCount = 1247\<rparr>,
                events = [ev]\<rparr>))
   \<and> faults freshDB = [] \<and> (\<forall>s e. snd (Fetch (sampleWorld 1247) s e) = None)
   \<and> unat (Messages (sampleWorld 1247)) + unat (word_of_int (BatchSize \<lparr>BatchSize = 500\<rparr>) :: u32)
        < 2 ^ 32
   \<and> scanEmailsBatch 3 \<lparr>BatchSize = 500\<rparr> (sampleWorld 1247) freshDB =
       Some (Returned
         \<lparr>db = doneDB,
          progress = \<lparr>LastProcessedUID = 1247, TotalMessages = 1247, ProcessedCount = 1247\<rparr>,
          events = [ProcessingBatch 1 500, ProcessingBatch 501 1000, ProcessingBatch 1001 1247,
                    ScanningCompleted]\<rparr>)
   \<and> (\<exists>r2. scanEmailsBatch 0 \<lparr>BatchSize = 500\<rparr> (sampleWorld 1247) doneDB = Some (Returned r2)
         \<and> db r2 = doneDB)
   \<and> unat (Messages outageWorld) + unat (word_of_int (BatchSize \<lparr>BatchSize = 500\<rparr>) :: u32)
        < 2 ^ 32
   \<and> scanEmailsBatch 3 \<lparr>BatchSize = 500\<rparr> outageWorld freshDB =
       Some (Returned
         \<lparr>db = doneDB,
          progress = \<lparr>LastProcessedUID = 1247, TotalMessages = 1247, ProcessedCount = 1247\<rparr>,
          events = [ProcessingBatch 1 500, ProcessingBatch 501 1000, BatchProcessingError,
                    ProcessingBatch 1001 1247, ScanningCompleted]\<rparr>)
   \<and> (\<exists>r2. scanEmailsBatch (Suc 0) \<lparr>BatchSize = 500\<rparr> outageWorld doneDB = Some (Returned r2)
         \<and> db r2 = doneDB)"
proof -
  let ?done = "\<lparr>LastProcessedUID = 1247, TotalMessages = 1247, ProcessedCount = 1247\<rparr>"
  let ?r1 = "\<lparr>db = doneDB, progress = ?done,
          events = [ProcessingBatch 1 500, ProcessingBatch 501 1000, ProcessingBatch 1001 1247,
                    ScanningCompleted]\<rparr>"
  have load: "fst (loadProgress doneDB) = Inr ?done"
    by code_simp
  have session: "\<not> DialTLSFails (sampleWorld 1247)" "\<not> LoginFails (sampleWorld 1247)"
      "\<not> SelectFails (sampleWorld 1247)"
    by (simp_all add: sampleWorld_def)
  have size: "Messages (sampleWorld 1247) = 1247"
    by (simp add: sampleWorld_def)
  have beyond: "(1247 :: u32) + 1 > Messages (sampleWorld 1247)"
    by (simp add: sampleWorld_def)
  have quiet: "faults freshDB = []" "\<forall>s e. snd (Fetch (sampleWorld 1247) s e) = None"
      "unat (Messages (sampleWorld 1247)) + unat (word_of_int (BatchSize \<lparr>BatchSize = 500\<rparr>) :: u32)
        < 2 ^ 32"
    by (simp_all add: sampleWorld_def freshDB_def)
  have first: "scanEmailsBatch 3 \<lparr>BatchSize = 500\<rparr> (sampleWorld 1247) freshDB = Some (Returned ?r1)"
    by code_simp
  have a: "\<exists>ev. scanEmailsBatch 0 \<lparr>BatchSize = 500\<rparr> (sampleWorld 1247) doneDB =
            Some (Returned \<lparr>db = snd (nextFault doneDB), progress = ?done, events = [ev]\<rparr>)"
    using second_run_is_idle [where d = doneDB and p = ?done and w = "sampleWorld 1247"
        and fuel = 0 and config = "\<lparr>BatchSize = 500\<rparr>" and ?r1.0 = ?r1 and fuel' = 0]
      load session beyond
    by (auto simp: size)
  have b: "\<exists>r2. scanEmailsBatch 0 \<lparr>BatchSize = 500\<rparr> (sampleWorld 1247) doneDB = Some (Returned r2)
         \<and> db r2 = doneDB"
    using second_run_is_idle [where d = freshDB and p = ?done and w = "sampleWorld 1247"
        and fuel = 3 and config = "\<lparr>BatchSize = 500\<rparr>" and ?r1.0 = ?r1 and fuel' = 0]
      quiet first
    by auto
  let ?r3 = "\<lparr>db = doneDB, progress = ?done,
          events = [ProcessingBatch 1 500, ProcessingBatch 501 1000, BatchProcessingError,
                    ProcessingBatch 1001 1247, ScanningCompleted]\<rparr>"
  have width: "unat (Messages outageWorld)
        + unat (word_of_int (BatchSize \<lparr>BatchSize = 500\<rparr>) :: u32) < 2 ^ 32"
    by (simp add: outageWorld_def sampleWorld_def)
  have outage: "scanEmailsBatch 3 \<lparr>BatchSize = 500\<rparr> outageWorld freshDB = Some (Returned ?r3)"
    by code_simp
  have c: "\<exists>r2. scanEmailsBatch (Suc 0) \<lparr>BatchSize = 500\<rparr> outageWorld doneDB = Some (Returned r2)
         \<and> db r2 = doneDB"
    using second_run_is_idle [where d = freshDB and p = ?done and w = outageWorld
        and fuel = 3 and config = "\<lparr>BatchSize = 500\<rparr>" and ?r1.0 = ?r3 and fuel' = 0]
      quiet(1) width outage
    by auto
  show ?thesis
    using load session beyond a quiet first b width outage c by simp
qed

end
